theory Spec2Isabelle
  imports Main "HOL-Library.Char_ord"
begin

section \<open>Data model\<close>

text \<open>
  The package hands failures back as Go \<open>error\<close> values: the sentinel
  \<open>ErrNoModeline\<close>, the error built in \<open>parseOptions\<close> for a dangling colon, and
  whatever \<open>bufio.Scanner.Err\<close> reports. A run-time panic (a slice expression or an
  index out of range, a \<open>make\<close> with a bad capacity) is a fourth outcome.
\<close>

datatype error = ErrNoModeline | ErrMalformed | ErrRead | RuntimePanic

record Modeline =
  Program :: string
  Options :: "string \<rightharpoonup> string"
  RawLine :: string

record Scanner =
  ScanTop :: bool
  ScanBottom :: bool
  MaxLines :: int

definition defaultScanner :: Scanner where
  "defaultScanner = \<lparr>ScanTop = True, ScanBottom = True, MaxLines = 5\<rparr>"

section \<open>The functions of package \<open>strings\<close> that the tokenizer calls\<close>

text \<open>
  Go strings are byte sequences, as \<open>string\<close> is here. Every cut set, prefix and
  separator the package passes is ASCII, and no byte of a multi-byte UTF-8 sequence is
  ASCII, so the rune-wise library functions act on these arguments byte by byte.
\<close>

definition TrimLeft :: "string \<Rightarrow> string \<Rightarrow> string" where
  "TrimLeft s cutset = dropWhile (\<lambda>c. c \<in> set cutset) s"

definition TrimRight :: "string \<Rightarrow> string \<Rightarrow> string" where
  "TrimRight s cutset = rev (dropWhile (\<lambda>c. c \<in> set cutset) (rev s))"

definition HasPrefix :: "string \<Rightarrow> string \<Rightarrow> bool" where
  "HasPrefix s pre \<longleftrightarrow> length pre \<le> length s \<and> take (length pre) s = pre"

definition HasSuffix :: "string \<Rightarrow> string \<Rightarrow> bool" where
  "HasSuffix s suf \<longleftrightarrow> length suf \<le> length s \<and> drop (length s - length suf) s = suf"

text \<open>\<open>strings.Index\<close>: the position of the first occurrence, \<open>None\<close> for Go's \<open>-1\<close>.\<close>

fun Index :: "string \<Rightarrow> string \<Rightarrow> nat option" where
  "Index [] substr = (if substr = [] then Some 0 else None)"
| "Index (c # cs) substr =
     (if HasPrefix (c # cs) substr then Some 0 else map_option Suc (Index cs substr))"

definition Cut :: "string \<Rightarrow> string \<Rightarrow> string \<times> string \<times> bool" where
  "Cut s sep =
     (case Index s sep of
        Some i \<Rightarrow> (take i s, drop (i + length sep) s, True)
      | None \<Rightarrow> (s, [], False))"

text \<open>
  \<open>strings.FieldsFunc\<close>: one pass over the string, \<open>cur\<close> being the field under
  construction; a separator closes it, and an empty field is never emitted.
\<close>

fun spans :: "(char \<Rightarrow> bool) \<Rightarrow> string \<Rightarrow> string \<Rightarrow> string list" where
  "spans f cur [] = (if cur = [] then [] else [cur])"
| "spans f cur (c # cs) =
     (if f c then (if cur = [] then spans f [] cs else cur # spans f [] cs)
      else spans f (cur @ [c]) cs)"

definition FieldsFunc :: "string \<Rightarrow> (char \<Rightarrow> bool) \<Rightarrow> string list" where
  "FieldsFunc s f = spans f [] s"

section \<open>Line tokenizer\<close>

definition isWordChar :: "char \<Rightarrow> bool" where
  "isWordChar c \<longleftrightarrow>
     (CHR ''a'' \<le> c \<and> c \<le> CHR ''z'') \<or> (CHR ''A'' \<le> c \<and> c \<le> CHR ''Z'') \<or>
     (CHR ''0'' \<le> c \<and> c \<le> CHR ''9'') \<or> c = CHR ''_''"

definition isBlank :: "char \<Rightarrow> bool" where
  "isBlank c \<longleftrightarrow> c = CHR '' '' \<or> c = CHR 0x09"

text \<open>The two inner loops of \<open>findProgram\<close>, each advancing the index \<open>j\<close>.\<close>

function skipBlank :: "string \<Rightarrow> nat \<Rightarrow> nat" where
  "skipBlank line j =
     (if j < length line \<and> isBlank (line ! j) then skipBlank line (j + 1) else j)"
  by pat_completeness auto
termination
  by (relation "measure (\<lambda>(line, j). length line - j)") auto

function skipWord :: "string \<Rightarrow> nat \<Rightarrow> nat" where
  "skipWord line j =
     (if j < length line \<and> isWordChar (line ! j) then skipWord line (j + 1) else j)"
  by pat_completeness auto
termination
  by (relation "measure (\<lambda>(line, j). length line - j)") auto

text \<open>
  The outer loop of \<open>findProgram\<close>, from index \<open>i\<close>. The slices \<open>line[start:j]\<close> and
  \<open>line[j+1:]\<close> are taken only where \<open>start < j < len(line)\<close>, so they are in range.
\<close>

function findProgramFrom :: "string \<Rightarrow> nat \<Rightarrow> error + string \<times> string" where
  "findProgramFrom line i =
     (if i < length line then
        (if isBlank (line ! i) then
           (let j = skipBlank line (i + 1) in
            if j \<ge> length line then findProgramFrom line (i + 1)
            else
              (let start = j; j = skipWord line j in
               if j < length line \<and> line ! j = CHR '':'' \<and> j > start
               then Inr (take (j - start) (drop start line), drop (j + 1) line)
               else findProgramFrom line (i + 1)))
         else findProgramFrom line (i + 1))
      else Inl ErrNoModeline)"
  by pat_completeness auto
termination
  by (relation "measure (\<lambda>(line, i). length line - i)") auto

definition findProgram :: "string \<Rightarrow> error + string \<times> string" where
  "findProgram line = findProgramFrom line 0"

definition parseOption :: "string \<Rightarrow> string \<times> string" where
  "parseOption token =
     (case Cut token ''='' of
        (key, val, found) \<Rightarrow>
          if found then (key, val)
          else if HasPrefix token ''no'' \<and> length token > 2 then (drop 2 token, ''false'')
          else (token, ''true''))"

text \<open>The \<open>range\<close> loop of \<open>parseFirstForm\<close> over the tokens, threading the map.\<close>

fun parseTokens :: "string list \<Rightarrow> (string \<rightharpoonup> string) \<Rightarrow> (string \<rightharpoonup> string)" where
  "parseTokens [] options = options"
| "parseTokens (token # tokens) options =
     (if token = [] then parseTokens tokens options
      else
        (case parseOption token of
           (key, val) \<Rightarrow>
             if key \<noteq> [] then parseTokens tokens (options(key \<mapsto> val))
             else parseTokens tokens options))"

definition isSeparator :: "char \<Rightarrow> bool" where
  "isSeparator r \<longleftrightarrow> r = CHR '' '' \<or> r = CHR 0x09 \<or> r = CHR '':''"

definition parseFirstForm :: "string \<Rightarrow> (string \<rightharpoonup> string)" where
  "parseFirstForm text = parseTokens (FieldsFunc text isSeparator) Map.empty"

definition parseSecondForm :: "string \<Rightarrow> error + (string \<rightharpoonup> string)" where
  "parseSecondForm rest =
     (case Index rest '':'' of
        None \<Rightarrow> Inr Map.empty
      | Some colonIdx \<Rightarrow> Inr (parseFirstForm (take colonIdx rest)))"

definition parseOptions :: "string \<Rightarrow> error + (string \<rightharpoonup> string)" where
  "parseOptions rest0 =
     (let rest = TrimLeft rest0 [CHR '' '', CHR 0x09] in
      if HasPrefix rest ''set '' then parseSecondForm (drop 4 rest)
      else if HasPrefix rest ''se '' then parseSecondForm (drop 3 rest)
      else if HasSuffix (TrimRight rest [CHR '' '', CHR 0x09]) '':'' then Inl ErrMalformed
      else Inr (parseFirstForm rest))"

text \<open>The method \<open>(*Scanner).ScanString\<close>; it never reads its receiver.\<close>

definition Scanner_ScanString :: "Scanner \<Rightarrow> string \<Rightarrow> error + Modeline" where
  "Scanner_ScanString s str =
     (case findProgram str of
        Inl e \<Rightarrow> Inl e
      | Inr (program, rest) \<Rightarrow>
          (case parseOptions rest of
             Inl e \<Rightarrow> Inl e
           | Inr options \<Rightarrow> Inr \<lparr>Program = program, Options = options, RawLine = str\<rparr>))"

definition ScanString :: "string \<Rightarrow> error + Modeline" where
  "ScanString str = Scanner_ScanString defaultScanner str"

section \<open>Window scanner\<close>

text \<open>
  The reader is consumed through a \<open>bufio.Scanner\<close> with the default line splitter. It is
  modelled by what the scanner makes of it: the lines it delivers, in order, and whether
  the input then ends or the read fails (an I/O error, or a line beyond the scanner's
  token limit).
\<close>

record Reader =
  content :: "string list"
  failing :: bool

record LineScanner =
  pending :: "string list"
  broken :: bool
  tok :: string
  err :: bool

definition NewScanner :: "Reader \<Rightarrow> LineScanner" where
  "NewScanner r = \<lparr>pending = content r, broken = failing r, tok = [], err = False\<rparr>"

text \<open>
  \<open>bufio.Scanner.Scan\<close> advances to the next line and says whether there is one; once
  it has said no it keeps saying no, and \<open>Err\<close> then tells a failure from the end of input.
\<close>

definition bufio_Scan :: "LineScanner \<Rightarrow> bool \<times> LineScanner" where
  "bufio_Scan sc =
     (case pending sc of
        [] \<Rightarrow> (False, sc\<lparr>err := broken sc\<rparr>)
      | l # ls \<Rightarrow> (True, sc\<lparr>pending := ls, tok := l\<rparr>))"

definition bufio_Text :: "LineScanner \<Rightarrow> string" where
  "bufio_Text sc = tok sc"

definition bufio_Err :: "LineScanner \<Rightarrow> bool" where
  "bufio_Err sc = err sc"

text \<open>
  \<open>make([]string, 0, n)\<close> panics on a negative capacity and on one whose memory the
  runtime cannot address: on the 64-bit targets a string header has 16 bytes and the limit
  is \<open>2 ^ 48\<close> bytes (running out of memory below that limit is left out of the
  model). Where \<open>Scan\<close> computes \<open>2 * MaxLines\<close> the buffer has been made, so the product
  stays far inside the 64-bit \<open>int\<close>; \<open>lineCount\<close> counts lines read, and no input has
  \<open>2 ^ 63\<close> of them. The arithmetic of \<open>Scan\<close> is written over \<open>int\<close> without
  wrap-around for that reason.
\<close>

definition makeCapOk :: "int \<Rightarrow> bool" where
  "makeCapOk n \<longleftrightarrow> 0 \<le> n \<and> 16 * n \<le> 2 ^ 48"

text \<open>
  The loop \<open>for scanner.Scan() && lineCount < s.MaxLines\<close>, which \<open>Scan\<close> contains
  twice with the same body. The call of \<open>scanner.Scan()\<close> comes first in the condition:
  when the count stops the loop, a line has already been taken from the input.
\<close>

function readTop ::
  "Scanner \<Rightarrow> LineScanner \<Rightarrow> int \<Rightarrow> Modeline list \<Rightarrow> LineScanner \<times> int \<times> Modeline list" where
  "readTop s scanner lineCount modelines =
     (case bufio_Scan scanner of
        (ok, scanner') \<Rightarrow>
          if ok \<and> lineCount < MaxLines s then
            readTop s scanner' (lineCount + 1)
              (case Scanner_ScanString s (bufio_Text scanner') of
                 Inr m \<Rightarrow> modelines @ [m]
               | Inl e \<Rightarrow> modelines)
          else (scanner', lineCount, modelines))"
  by pat_completeness auto
termination
  by (relation "measure (\<lambda>(s, scanner, lineCount, modelines). length (pending scanner))")
     (auto simp: bufio_Scan_def split: list.splits)

text \<open>
  The loop that fills \<open>bottomBuffer\<close>. \<open>copy(bottomBuffer, bottomBuffer[1:])\<close> moves
  every entry but the first one place down and leaves the last where it was; the slice
  expression panics on an empty buffer, the assignment on an index out of range.
\<close>

function fillBottom ::
  "Scanner \<Rightarrow> LineScanner \<Rightarrow> string list \<Rightarrow> int \<Rightarrow> error + LineScanner \<times> string list \<times> int" where
  "fillBottom s scanner bottomBuffer lineCount =
     (case bufio_Scan scanner of
        (ok, scanner') \<Rightarrow>
          if ok then
            (let line = bufio_Text scanner' in
             if int (length bottomBuffer) < MaxLines s then
               fillBottom s scanner' (bottomBuffer @ [line]) (lineCount + 1)
             else if length bottomBuffer < 1 then Inl RuntimePanic
             else if MaxLines s - 1 < 0 \<or> int (length bottomBuffer) \<le> MaxLines s - 1
               then Inl RuntimePanic
             else
               fillBottom s scanner'
                 ((tl bottomBuffer @ [last bottomBuffer])[nat (MaxLines s - 1) := line])
                 (lineCount + 1))
          else Inr (scanner', bottomBuffer, lineCount))"
  by pat_completeness auto
termination
  by (relation "measure (\<lambda>(s, scanner, bottomBuffer, lineCount). length (pending scanner))")
     (auto simp: bufio_Scan_def split: list.splits)

text \<open>The loop \<open>for i := startIdx; i < len(bottomBuffer); i++\<close>.\<close>

function parseBottom ::
  "Scanner \<Rightarrow> string list \<Rightarrow> int \<Rightarrow> Modeline list \<Rightarrow> error + Modeline list" where
  "parseBottom s bottomBuffer i modelines =
     (if i < int (length bottomBuffer) then
        (if i < 0 then Inl RuntimePanic
         else
           parseBottom s bottomBuffer (i + 1)
             (case Scanner_ScanString s (bottomBuffer ! nat i) of
                Inr m \<Rightarrow> modelines @ [m]
              | Inl e \<Rightarrow> modelines))
      else Inr modelines)"
  by pat_completeness auto
termination
  by (relation "measure (\<lambda>(s, bottomBuffer, i, modelines). nat (int (length bottomBuffer) - i))")
     auto

definition Scan :: "Scanner \<Rightarrow> Reader \<Rightarrow> error + Modeline list" where
  "Scan s r =
     (if \<not> ScanTop s \<and> \<not> ScanBottom s then Inr []
      else
        (let scanner = NewScanner r in
         if ScanTop s \<and> \<not> ScanBottom s then
           (case readTop s scanner 0 [] of
              (scanner, lineCount, modelines) \<Rightarrow>
                if bufio_Err scanner then Inl ErrRead else Inr modelines)
         else if \<not> makeCapOk (MaxLines s) then Inl RuntimePanic
         else
           (case (if ScanTop s then readTop s scanner 0 [] else (scanner, 0, [])) of
              (scanner, lineCount, modelines) \<Rightarrow>
                if ScanTop s \<and> bufio_Err scanner then Inl ErrRead
                else
                  (case fillBottom s scanner [] lineCount of
                     Inl e \<Rightarrow> Inl e
                   | Inr (scanner, bottomBuffer, lineCount) \<Rightarrow>
                       if bufio_Err scanner then Inl ErrRead
                       else if ScanBottom s then
                         (if ScanTop s \<and> lineCount \<le> MaxLines s then Inr modelines
                          else
                            (let startIdx =
                                   (if ScanTop s \<and> lineCount < 2 * MaxLines s
                                    then MaxLines s - (2 * MaxLines s - lineCount)
                                    else 0)
                             in parseBottom s bottomBuffer startIdx modelines))
                       else Inr modelines))))"

section \<open>Notions of the specification\<close>

text \<open>
  An occurrence of the modeline pattern in a line: the text \<open>pre\<close> before it, a run
  \<open>ws\<close> of blanks, the identifier \<open>ident\<close>, a colon, and the remainder \<open>rest\<close>.
\<close>

definition modelineMatch :: "string \<Rightarrow> string \<Rightarrow> string \<Rightarrow> string \<Rightarrow> string \<Rightarrow> bool" where
  "modelineMatch line pre ws ident rest \<longleftrightarrow>
     line = pre @ ws @ ident @ CHR '':'' # rest \<and>
     ws \<noteq> [] \<and> list_all isBlank ws \<and> ident \<noteq> [] \<and> list_all isWordChar ident"

text \<open>
  The remainder of a first-form line that ends in a colon: after the leading blanks
  it starts with neither keyword, and its last character before the trailing blanks is
  a colon.
\<close>

definition danglingColon :: "string \<Rightarrow> bool" where
  "danglingColon rest \<longleftrightarrow>
     (let t = dropWhile isBlank rest in
      take 4 t \<noteq> ''set '' \<and> take 3 t \<noteq> ''se '' \<and>
      (case dropWhile isBlank (rev t) of [] \<Rightarrow> False | c # cs \<Rightarrow> c = CHR '':''))"

text \<open>The decoding of one option token, in the words of the specification.\<close>

definition decodeToken :: "string \<Rightarrow> string \<times> string" where
  "decodeToken token =
     (if CHR ''='' \<in> set token then
        (takeWhile (\<lambda>c. c \<noteq> CHR ''='') token, tl (dropWhile (\<lambda>c. c \<noteq> CHR ''='') token))
      else if take 2 token = ''no'' \<and> drop 2 token \<noteq> [] then (drop 2 token, ''false'')
      else (token, ''true''))"

text \<open>The value of the last token that decodes to \<open>name\<close>, if there is one.\<close>

definition lastValue :: "string list \<Rightarrow> string \<Rightarrow> string option" where
  "lastValue tokens name =
     (case filter (\<lambda>t. fst (decodeToken t) = name) tokens of
        [] \<Rightarrow> None
      | t # ts \<Rightarrow> Some (snd (decodeToken (last (t # ts)))))"

text \<open>The successful parses of a run of lines, in the order of the lines.\<close>

definition successes :: "Scanner \<Rightarrow> string list \<Rightarrow> Modeline list" where
  "successes s ls =
     concat (map (\<lambda>l. case Scanner_ScanString s l of Inr m \<Rightarrow> [m] | Inl e \<Rightarrow> []) ls)"

declare skipBlank.simps [simp del]
declare skipWord.simps [simp del]
declare findProgramFrom.simps [simp del]
declare readTop.simps [simp del]
declare fillBottom.simps [simp del]
declare parseBottom.simps [simp del]

section \<open>Program detection finds the leftmost match\<close>

lemma word_not_blank: "isWordChar c \<Longrightarrow> \<not> isBlank c"
  by (auto simp: isWordChar_def isBlank_def)

lemma colon_not_word: "\<not> isWordChar (CHR '':'')"
  by (simp add: isWordChar_def)

lemma skipBlank_eq:
  "j \<le> length line \<Longrightarrow> skipBlank line j = j + length (takeWhile isBlank (drop j line))"
proof (induction line j rule: skipBlank.induct)
  case (1 line j)
  show ?case
  proof (cases "j < length line \<and> isBlank (line ! j)")
    case True
    then have d: "drop j line = line ! j # drop (Suc j) line"
      by (simp add: Cons_nth_drop_Suc)
    from True 1 have "skipBlank line (j + 1) = j + 1 + length (takeWhile isBlank (drop (j + 1) line))"
      by simp
    with True d show ?thesis
      by (subst skipBlank.simps) simp
  next
    case False
    with 1 have "takeWhile isBlank (drop j line) = []"
      by (cases "j < length line") (simp_all add: Cons_nth_drop_Suc [symmetric])
    with False show ?thesis
      by (subst skipBlank.simps) auto
  qed
qed

lemma skipWord_eq:
  "j \<le> length line \<Longrightarrow> skipWord line j = j + length (takeWhile isWordChar (drop j line))"
proof (induction line j rule: skipWord.induct)
  case (1 line j)
  show ?case
  proof (cases "j < length line \<and> isWordChar (line ! j)")
    case True
    then have d: "drop j line = line ! j # drop (Suc j) line"
      by (simp add: Cons_nth_drop_Suc)
    from True 1 have "skipWord line (j + 1) = j + 1 + length (takeWhile isWordChar (drop (j + 1) line))"
      by simp
    with True d show ?thesis
      by (subst skipWord.simps) simp
  next
    case False
    with 1 have "takeWhile isWordChar (drop j line) = []"
      by (cases "j < length line") (simp_all add: Cons_nth_drop_Suc [symmetric])
    with False show ?thesis
      by (subst skipWord.simps) auto
  qed
qed

lemma findProgramFrom_step:
  assumes "i < length line"
  defines "r \<equiv> dropWhile isBlank (drop (Suc i) line)"
  shows "findProgramFrom line i =
     (if isBlank (line ! i) \<and> takeWhile isWordChar r \<noteq> [] \<and>
         dropWhile isWordChar r \<noteq> [] \<and> hd (dropWhile isWordChar r) = CHR '':''
      then Inr (takeWhile isWordChar r, tl (dropWhile isWordChar r))
      else findProgramFrom line (Suc i))"
proof -
  define j where "j = skipBlank line (i + 1)"
  define q where "q = skipWord line j"
  have j: "j = Suc i + length (takeWhile isBlank (drop (Suc i) line))"
    using assms(1) by (simp add: j_def skipBlank_eq)
  have "length (takeWhile isBlank (drop (Suc i) line)) \<le> length (drop (Suc i) line)"
    by (rule length_takeWhile_le)
  with assms(1) have jle: "j \<le> length line"
    by (simp add: j)
  have dj: "drop j line = r"
    by (simp add: j r_def dropWhile_eq_drop add.commute)
  have q: "q = j + length (takeWhile isWordChar r)"
    using jle by (simp add: q_def skipWord_eq dj)
  have "length (takeWhile isWordChar r) \<le> length r"
    by (rule length_takeWhile_le)
  with dj jle have qle: "q \<le> length line"
    by (simp add: q) (metis add.commute le_diff_conv2 length_drop)
  have dq: "drop q line = dropWhile isWordChar r"
    by (simp add: q dropWhile_eq_drop add.commute flip: dj)
  have jr: "length line \<le> j \<longleftrightarrow> r = []"
    using dj jle by (metis drop_eq_Nil)
  have qj: "j < q \<longleftrightarrow> takeWhile isWordChar r \<noteq> []"
    by (simp add: q)
  have colon: "q < length line \<and> line ! q = CHR '':'' \<longleftrightarrow>
      dropWhile isWordChar r \<noteq> [] \<and> hd (dropWhile isWordChar r) = CHR '':''"
    using dq qle by (metis drop_eq_Nil hd_drop_conv_nth le_less_linear not_le)
  have ident: "take (q - j) (drop j line) = takeWhile isWordChar r"
    by (simp add: q dj takeWhile_eq_take [symmetric])
  have rest: "drop (q + 1) line = tl (dropWhile isWordChar r)"
    by (simp add: dq [symmetric] tl_drop drop_Suc)
  have empty: "r = [] \<Longrightarrow> takeWhile isWordChar r = []"
    by simp
  have unfold: "findProgramFrom line i =
      (if isBlank (line ! i) then
         (if length line \<le> j then findProgramFrom line (Suc i)
          else if q < length line \<and> line ! q = CHR '':'' \<and> j < q
            then Inr (take (q - j) (drop j line), drop (q + 1) line)
            else findProgramFrom line (Suc i))
       else findProgramFrom line (Suc i))"
    using assms(1) by (subst findProgramFrom.simps) (simp add: Let_def j_def q_def)
  have cond: "(q < length line \<and> line ! q = CHR '':'' \<and> j < q) \<longleftrightarrow>
      (takeWhile isWordChar r \<noteq> [] \<and> dropWhile isWordChar r \<noteq> [] \<and>
       hd (dropWhile isWordChar r) = CHR '':'')"
    using colon qj by blast
  show ?thesis
    unfolding unfold jr cond ident rest
    by (cases "r = []") simp_all
qed

lemma modelineMatch_Nil [simp]: "\<not> modelineMatch [] pre ws ident rest"
  by (simp add: modelineMatch_def)

lemma modelineMatch_Cons:
  "modelineMatch (c # cs) (p # pre) ws ident rest \<longleftrightarrow> p = c \<and> modelineMatch cs pre ws ident rest"
  by (auto simp: modelineMatch_def)

lemma modelineMatch_here:
  "modelineMatch (c # cs) [] ws ident rest \<longleftrightarrow>
     isBlank c \<and> ws = c # takeWhile isBlank cs \<and>
     ident = takeWhile isWordChar (dropWhile isBlank cs) \<and> ident \<noteq> [] \<and>
     dropWhile isWordChar (dropWhile isBlank cs) = CHR '':'' # rest"
  (is "?L \<longleftrightarrow> ?R")
proof
  assume ?L
  then obtain ws' where ws: "ws = c # ws'" and cs: "cs = ws' @ ident @ CHR '':'' # rest"
    and bl: "isBlank c" "list_all isBlank ws'" and id: "ident \<noteq> []" "list_all isWordChar ident"
    by (cases ws) (auto simp: modelineMatch_def)
  from id obtain a as where ia: "ident = a # as" and a: "isWordChar a"
    by (cases ident) auto
  have tw: "takeWhile isBlank cs = ws'"
    using bl a by (simp add: cs ia takeWhile_append2 list_all_iff word_not_blank)
  have dw: "dropWhile isBlank cs = ident @ CHR '':'' # rest"
    using bl a by (simp add: cs ia dropWhile_append2 list_all_iff word_not_blank)
  have "takeWhile isWordChar (ident @ CHR '':'' # rest) = ident"
    using id by (simp add: takeWhile_append2 list_all_iff colon_not_word)
  moreover have "dropWhile isWordChar (ident @ CHR '':'' # rest) = CHR '':'' # rest"
    using id by (simp add: dropWhile_append2 list_all_iff colon_not_word)
  ultimately show ?R
    using bl id ws tw dw by simp
next
  assume r: ?R
  have "cs = takeWhile isBlank cs @ dropWhile isBlank cs"
    by simp
  also have "dropWhile isBlank cs = ident @ CHR '':'' # rest"
    using r by (metis takeWhile_dropWhile_id)
  finally have "c # cs = [] @ ws @ ident @ CHR '':'' # rest"
    using r by simp
  moreover have "list_all isBlank ws"
    using r by (auto simp: list_all_iff dest: set_takeWhileD)
  moreover have "list_all isWordChar ident"
    using r by (auto simp: list_all_iff dest: set_takeWhileD)
  ultimately show ?L
    using r unfolding modelineMatch_def by blast
qed

lemma findProgramFrom_spec:
  "i \<le> length line \<Longrightarrow>
     (\<forall>e. findProgramFrom line i = Inl e \<longrightarrow>
        e = ErrNoModeline \<and> (\<forall>pre ws ident rest. \<not> modelineMatch (drop i line) pre ws ident rest)) \<and>
     (\<forall>p r. findProgramFrom line i = Inr (p, r) \<longrightarrow>
        (\<exists>pre ws. modelineMatch (drop i line) pre ws p r \<and>
           (\<forall>pre' ws' ident' rest'.
              modelineMatch (drop i line) pre' ws' ident' rest' \<longrightarrow> length pre \<le> length pre')))"
proof (induction "length line - i" arbitrary: i)
  case 0
  then have "findProgramFrom line i = Inl ErrNoModeline" "drop i line = []"
    by (simp_all add: findProgramFrom.simps)
  then show ?case by simp
next
  case (Suc n)
  then have i: "i < length line" by simp
  define c where "c = line ! i"
  define cs where "cs = drop (Suc i) line"
  define r where "r = dropWhile isBlank cs"
  have d: "drop i line = c # cs"
    using i by (simp add: c_def cs_def Cons_nth_drop_Suc)
  define hit where "hit \<longleftrightarrow> isBlank c \<and> takeWhile isWordChar r \<noteq> [] \<and>
         dropWhile isWordChar r \<noteq> [] \<and> hd (dropWhile isWordChar r) = CHR '':''"
  have step: "findProgramFrom line i =
      (if hit then Inr (takeWhile isWordChar r, tl (dropWhile isWordChar r))
       else findProgramFrom line (Suc i))"
    unfolding hit_def r_def cs_def c_def by (rule findProgramFrom_step [OF i])
  show ?case
  proof (cases hit)
    case hit: True
    then have res: "findProgramFrom line i = Inr (takeWhile isWordChar r, tl (dropWhile isWordChar r))"
      using step by simp
    from hit have True: "isBlank c \<and> takeWhile isWordChar r \<noteq> [] \<and>
         dropWhile isWordChar r \<noteq> [] \<and> hd (dropWhile isWordChar r) = CHR '':''"
      by (simp add: hit_def)
    from True have "dropWhile isWordChar r = CHR '':'' # tl (dropWhile isWordChar r)"
      by (cases "dropWhile isWordChar r") auto
    with True have "modelineMatch (c # cs) [] (c # takeWhile isBlank cs)
        (takeWhile isWordChar r) (tl (dropWhile isWordChar r))"
      by (simp add: modelineMatch_here r_def)
    then have "\<exists>pre ws. modelineMatch (c # cs) pre ws
        (takeWhile isWordChar r) (tl (dropWhile isWordChar r)) \<and>
        (\<forall>pre' ws' ident' rest'.
           modelineMatch (c # cs) pre' ws' ident' rest' \<longrightarrow> length pre \<le> length pre')"
      by (intro exI [of _ "[]"] exI [of _ "c # takeWhile isBlank cs"]) simp
    then show ?thesis
      unfolding res d by simp
  next
    case nohit: False
    then have res: "findProgramFrom line i = findProgramFrom line (Suc i)"
      using step by simp
    have nohere: "\<not> modelineMatch (c # cs) [] ws ident rest" for ws ident rest
    proof
      assume "modelineMatch (c # cs) [] ws ident rest"
      then have "isBlank c" "takeWhile isWordChar r \<noteq> []"
        "dropWhile isWordChar r = CHR '':'' # rest"
        unfolding modelineMatch_here r_def by blast+
      then have hit
        unfolding hit_def by simp
      with nohit show False ..
    qed
    have shift: "modelineMatch (c # cs) pre ws ident rest \<longleftrightarrow>
        (\<exists>pre'. pre = c # pre' \<and> modelineMatch cs pre' ws ident rest)" for pre ws ident rest
      using nohere by (cases pre) (auto simp: modelineMatch_Cons)
    from Suc have ih:
      "(\<forall>e. findProgramFrom line (Suc i) = Inl e \<longrightarrow>
        e = ErrNoModeline \<and> (\<forall>pre ws ident rest. \<not> modelineMatch cs pre ws ident rest)) \<and>
       (\<forall>p r. findProgramFrom line (Suc i) = Inr (p, r) \<longrightarrow>
        (\<exists>pre ws. modelineMatch cs pre ws p r \<and>
           (\<forall>pre' ws' ident' rest'.
              modelineMatch cs pre' ws' ident' rest' \<longrightarrow> length pre \<le> length pre')))"
    proof -
      have "n = length line - Suc i" "Suc i \<le> length line"
        using Suc.hyps(2) i by simp_all
      then show ?thesis
        unfolding cs_def by (rule Suc.hyps(1))
    qed
    show ?thesis
      unfolding res d
    proof (intro conjI allI impI)
      fix e assume "findProgramFrom line (Suc i) = Inl e"
      with ih show "e = ErrNoModeline" by blast
    next
      fix e pre ws ident rest assume "findProgramFrom line (Suc i) = Inl e"
      with ih show "\<not> modelineMatch (c # cs) pre ws ident rest"
        by (auto simp: shift)
    next
      fix p r assume "findProgramFrom line (Suc i) = Inr (p, r)"
      with ih obtain pre ws where m: "modelineMatch cs pre ws p r"
        and least: "\<And>pre' ws' ident' rest'.
              modelineMatch cs pre' ws' ident' rest' \<Longrightarrow> length pre \<le> length pre'"
        by blast
      have "modelineMatch (c # cs) (c # pre) ws p r"
        using m by (simp add: modelineMatch_Cons)
      moreover have "length (c # pre) \<le> length pre'"
        if "modelineMatch (c # cs) pre' ws' ident' rest'" for pre' ws' ident' rest'
        using that least by (auto simp: shift)
      ultimately show "\<exists>pre ws. modelineMatch (c # cs) pre ws p r \<and>
           (\<forall>pre' ws' ident' rest'.
              modelineMatch (c # cs) pre' ws' ident' rest' \<longrightarrow> length pre \<le> length pre')"
        by blast
    qed
  qed
qed

section \<open>Single-line parsing\<close>

lemma findProgram_spec:
  "(\<forall>e. findProgram line = Inl e \<longrightarrow>
        e = ErrNoModeline \<and> (\<forall>pre ws ident rest. \<not> modelineMatch line pre ws ident rest)) \<and>
   (\<forall>p r. findProgram line = Inr (p, r) \<longrightarrow>
        (\<exists>pre ws. modelineMatch line pre ws p r \<and>
           (\<forall>pre' ws' ident' rest'.
              modelineMatch line pre' ws' ident' rest' \<longrightarrow> length pre \<le> length pre')))"
  using findProgramFrom_spec [of 0 line] by (simp add: findProgram_def)

lemma parseSecondForm_Inr: "\<exists>opts. parseSecondForm rest = Inr opts"
  by (simp add: parseSecondForm_def split: option.split)

lemma parseOptions_Inl: "parseOptions rest = Inl e \<Longrightarrow> e = ErrMalformed"
  using parseSecondForm_Inr [of "drop 4 (TrimLeft rest [CHR '' '', CHR 0x09])"]
    parseSecondForm_Inr [of "drop 3 (TrimLeft rest [CHR '' '', CHR 0x09])"]
  by (auto simp: parseOptions_def Let_def split: if_splits)

lemma ScanString_Inr_iff:
  "Scanner_ScanString s line = Inr m \<longleftrightarrow>
     (\<exists>p r opts. findProgram line = Inr (p, r) \<and> parseOptions r = Inr opts \<and>
        m = \<lparr>Program = p, Options = opts, RawLine = line\<rparr>)"
  by (auto simp: Scanner_ScanString_def split: sum.splits)

lemma ScanString_Inl_iff:
  "Scanner_ScanString s line = Inl e \<longleftrightarrow>
     findProgram line = Inl e \<or> (\<exists>p r. findProgram line = Inr (p, r) \<and> parseOptions r = Inl e)"
  by (auto simp: Scanner_ScanString_def split: sum.splits)

text \<open>
  Claim C5. \<open>ScanString\<close> fails with \<open>ErrNoModeline\<close> exactly on the lines that hold no
  occurrence of a run of blanks, a non-empty identifier of word characters and a colon,
  one right after the other. When it succeeds, the program is the identifier of the
  leftmost occurrence (no occurrence starts earlier in the line), and the options are
  decoded from everything after the colon of that occurrence.
\<close>

theorem ScanString_NoModeline_iff_no_match:
  "(Scanner_ScanString s line = Inl ErrNoModeline \<longleftrightarrow>
      (\<forall>pre ws ident rest. \<not> modelineMatch line pre ws ident rest)) \<and>
   (\<forall>m. Scanner_ScanString s line = Inr m \<longrightarrow>
      (\<exists>pre ws rest.
         modelineMatch line pre ws (Program m) rest \<and>
         (\<forall>pre' ws' ident' rest'.
            modelineMatch line pre' ws' ident' rest' \<longrightarrow> length pre \<le> length pre') \<and>
         parseOptions rest = Inr (Options m)))"
proof (cases "findProgram line")
  case (Inl e)
  with findProgram_spec [of line] have "e = ErrNoModeline"
    and "\<forall>pre ws ident rest. \<not> modelineMatch line pre ws ident rest"
    by blast+
  with Inl show ?thesis
    by (simp add: ScanString_Inl_iff ScanString_Inr_iff)
next
  case (Inr pr)
  obtain p r where pr: "pr = (p, r)" by (cases pr)
  with Inr findProgram_spec [of line] obtain pre ws where m: "modelineMatch line pre ws p r"
    and least: "\<forall>pre' ws' ident' rest'.
            modelineMatch line pre' ws' ident' rest' \<longrightarrow> length pre \<le> length pre'"
    by blast
  have "Scanner_ScanString s line \<noteq> Inl ErrNoModeline"
    using Inr pr by (auto simp: ScanString_Inl_iff dest: parseOptions_Inl)
  moreover have "\<exists>pre ws rest.
         modelineMatch line pre ws (Program m') rest \<and>
         (\<forall>pre' ws' ident' rest'.
            modelineMatch line pre' ws' ident' rest' \<longrightarrow> length pre \<le> length pre') \<and>
         parseOptions rest = Inr (Options m')"
    if "Scanner_ScanString s line = Inr m'" for m'
  proof -
    from that Inr pr obtain opts where "parseOptions r = Inr opts"
      and "m' = \<lparr>Program = p, Options = opts, RawLine = line\<rparr>"
      by (auto simp: ScanString_Inr_iff)
    with m least show ?thesis
      by (intro exI [of _ pre] exI [of _ ws] exI [of _ r]) simp
  qed
  ultimately show ?thesis
    using m by blast
qed

lemma eval_vim_sw3:
  "Scanner_ScanString s ''# vim: sw=3'' =
     Inr \<lparr>Program = ''vim'', Options = [''sw'' \<mapsto> ''3''], RawLine = ''# vim: sw=3''\<rparr>"
  by (simp add: Scanner_ScanString_def findProgram_def findProgramFrom.simps skipBlank.simps
      skipWord.simps isBlank_def isWordChar_def parseOptions_def TrimLeft_def TrimRight_def
      HasPrefix_def HasSuffix_def parseFirstForm_def FieldsFunc_def isSeparator_def
      parseOption_def Cut_def)

theorem ScanString_NoModeline_iff_no_match_witness:
  "Scanner_ScanString defaultScanner ''# vim: sw=3'' \<noteq> Inl ErrNoModeline \<and>
   (\<exists>pre ws rest. modelineMatch ''# vim: sw=3'' pre ws ''vim'' rest \<and>
      parseOptions rest = Inr [''sw'' \<mapsto> ''3''])"
  using ScanString_NoModeline_iff_no_match [of defaultScanner "''# vim: sw=3''"]
    eval_vim_sw3 [of defaultScanner]
  by auto

text \<open>
  Claim C9. The program of every successful parse is a non-empty string, and a line
  without any occurrence of the pattern is a failure, never a success with an empty
  program.
\<close>

theorem Program_never_empty:
  "(\<forall>m. Scanner_ScanString s line = Inr m \<longrightarrow> Program m \<noteq> []) \<and>
   ((\<forall>pre ws ident rest. \<not> modelineMatch line pre ws ident rest) \<longrightarrow>
      Scanner_ScanString s line = Inl ErrNoModeline)"
proof (intro conjI allI impI)
  fix m assume "Scanner_ScanString s line = Inr m"
  then obtain p r where "findProgram line = Inr (p, r)" and "Program m = p"
    by (auto simp: ScanString_Inr_iff)
  with findProgram_spec [of line] show "Program m \<noteq> []"
    by (auto simp: modelineMatch_def)
next
  assume none: "\<forall>pre ws ident rest. \<not> modelineMatch line pre ws ident rest"
  show "Scanner_ScanString s line = Inl ErrNoModeline"
  proof (cases "findProgram line")
    case (Inl e)
    with findProgram_spec [of line] show ?thesis
      by (simp add: ScanString_Inl_iff)
  next
    case (Inr pr)
    with findProgram_spec [of line] none show ?thesis
      by (cases pr) blast
  qed
qed

theorem Program_never_empty_witness:
  "\<exists>m. Scanner_ScanString defaultScanner ''# vim: sw=3'' = Inr m \<and> Program m \<noteq> []"
  using Program_never_empty [of defaultScanner "''# vim: sw=3''"]
    eval_vim_sw3 [of defaultScanner]
  by auto

text \<open>
  Claim C8. The \<open>RawLine\<close> of a successful parse is the input line itself, character
  for character, and parsing that \<open>RawLine\<close> again, with any scanner, gives the same
  result: program, options and raw line.
\<close>

theorem RawLine_verbatim_reparse:
  "Scanner_ScanString s line = Inr m \<Longrightarrow>
     RawLine m = line \<and> Scanner_ScanString s' (RawLine m) = Inr m"
  by (auto simp: ScanString_Inr_iff)

theorem RawLine_verbatim_reparse_witness:
  "\<exists>m. Scanner_ScanString defaultScanner ''# vim: sw=3'' = Inr m \<and>
     RawLine m = ''# vim: sw=3'' \<and> Scanner_ScanString defaultScanner (RawLine m) = Inr m"
  using RawLine_verbatim_reparse [OF eval_vim_sw3 [of defaultScanner], of defaultScanner]
  by (intro exI [of _ "\<lparr>Program = ''vim'', Options = [''sw'' \<mapsto> ''3''], RawLine = ''# vim: sw=3''\<rparr>"])
     (simp add: eval_vim_sw3)

section \<open>Failure kinds and the two forms\<close>

lemma blank_cutset: "(\<lambda>c. c \<in> set [CHR '' '', CHR 0x09]) = isBlank"
  by (auto simp: isBlank_def fun_eq_iff)

lemma TrimLeft_blank: "TrimLeft s [CHR '' '', CHR 0x09] = dropWhile isBlank s"
  by (simp only: TrimLeft_def blank_cutset)

lemma TrimRight_blank: "TrimRight s [CHR '' '', CHR 0x09] = rev (dropWhile isBlank (rev s))"
  by (simp only: TrimRight_def blank_cutset)

lemma HasPrefix_take: "pre \<noteq> [] \<Longrightarrow> HasPrefix s pre \<longleftrightarrow> take (length pre) s = pre"
proof -
  have "length pre \<le> length s" if "take (length pre) s = pre"
  proof -
    from that have "length (take (length pre) s) = length pre"
      by simp
    then show ?thesis
      by simp
  qed
  then show ?thesis
    by (auto simp: HasPrefix_def)
qed

lemma HasSuffix_single:
  "HasSuffix u [c] \<longleftrightarrow> (case rev u of [] \<Rightarrow> False | d # ds \<Rightarrow> d = c)"
  by (cases u rule: rev_cases) (simp_all add: HasSuffix_def)

lemma parseOptions_Malformed_iff: "parseOptions rest = Inl ErrMalformed \<longleftrightarrow> danglingColon rest"
proof -
  define t where "t = dropWhile isBlank rest"
  have p4: "HasPrefix t ''set '' \<longleftrightarrow> take 4 t = ''set ''"
    using HasPrefix_take [of "''set ''" t] by (simp add: eval_nat_numeral)
  have p3: "HasPrefix t ''se '' \<longleftrightarrow> take 3 t = ''se ''"
    using HasPrefix_take [of "''se ''" t] by (simp add: eval_nat_numeral)
  obtain o4 where o4: "parseSecondForm (drop 4 t) = Inr o4"
    using parseSecondForm_Inr by blast
  obtain o3 where o3: "parseSecondForm (drop 3 t) = Inr o3"
    using parseSecondForm_Inr by blast
  show ?thesis
    unfolding parseOptions_def danglingColon_def TrimLeft_blank TrimRight_blank Let_def
      t_def [symmetric] p4 p3 HasSuffix_single
    by (simp add: o4 o3)
qed

lemma eval_robot_se:
  "Scanner_ScanString s ''# robot: se beep=boop'' =
     Inr \<lparr>Program = ''robot'', Options = Map.empty, RawLine = ''# robot: se beep=boop''\<rparr>"
  by (simp add: Scanner_ScanString_def findProgram_def findProgramFrom.simps skipBlank.simps
      skipWord.simps isBlank_def isWordChar_def parseOptions_def TrimLeft_def TrimRight_def
      HasPrefix_def HasSuffix_def parseSecondForm_def)

lemma eval_robot_colon:
  "Scanner_ScanString s ''# robot: beep=boop:'' = Inl ErrMalformed"
  by (simp add: Scanner_ScanString_def findProgram_def findProgramFrom.simps skipBlank.simps
      skipWord.simps isBlank_def isWordChar_def parseOptions_def TrimLeft_def TrimRight_def
      HasPrefix_def HasSuffix_def)

lemma eval_robot_colon_program:
  "findProgram ''# robot: beep=boop:'' = Inr (''robot'', '' beep=boop:'')"
  by (simp add: findProgram_def findProgramFrom.simps skipBlank.simps
      skipWord.simps isBlank_def isWordChar_def)

text \<open>
  Claim C6. The only errors of \<open>ScanString\<close> are \<open>ErrNoModeline\<close> and the malformed
  modeline error. Once a program has been found, the parse fails as malformed exactly
  when the remainder, its leading blanks dropped, starts with neither \<open>set \<close> nor
  \<open>se \<close> and ends, its trailing blanks dropped, in a colon; in every other case it
  succeeds with that program. The unterminated second form \<open># robot: se beep=boop\<close>
  succeeds with program \<open>robot\<close> and no option, and \<open># robot: beep=boop:\<close> is malformed.
\<close>

theorem ScanString_failure_kinds:
  "(\<forall>e. Scanner_ScanString s line = Inl e \<longrightarrow> e = ErrNoModeline \<or> e = ErrMalformed) \<and>
   (\<forall>program rest. findProgram line = Inr (program, rest) \<longrightarrow>
      (Scanner_ScanString s line = Inl ErrMalformed \<longleftrightarrow> danglingColon rest) \<and>
      (\<not> danglingColon rest \<longrightarrow>
         (\<exists>opts. Scanner_ScanString s line =
            Inr \<lparr>Program = program, Options = opts, RawLine = line\<rparr>))) \<and>
   Scanner_ScanString s ''# robot: se beep=boop'' =
     Inr \<lparr>Program = ''robot'', Options = Map.empty, RawLine = ''# robot: se beep=boop''\<rparr> \<and>
   Scanner_ScanString s ''# robot: beep=boop:'' = Inl ErrMalformed"
proof (intro conjI allI impI)
  fix e assume "Scanner_ScanString s line = Inl e"
  then show "e = ErrNoModeline \<or> e = ErrMalformed"
    using findProgram_spec [of line] by (auto simp: ScanString_Inl_iff dest: parseOptions_Inl)
next
  fix program rest assume fp: "findProgram line = Inr (program, rest)"
  then show "Scanner_ScanString s line = Inl ErrMalformed \<longleftrightarrow> danglingColon rest"
    by (simp add: ScanString_Inl_iff parseOptions_Malformed_iff)
  assume "\<not> danglingColon rest"
  then have "parseOptions rest \<noteq> Inl ErrMalformed"
    by (simp add: parseOptions_Malformed_iff)
  then obtain opts where "parseOptions rest = Inr opts"
    using parseOptions_Inl [of rest] by (cases "parseOptions rest") auto
  with fp show "\<exists>opts. Scanner_ScanString s line =
            Inr \<lparr>Program = program, Options = opts, RawLine = line\<rparr>"
    by (simp add: ScanString_Inr_iff)
qed (rule eval_robot_se eval_robot_colon)+

theorem ScanString_failure_kinds_witness:
  "danglingColon '' beep=boop:'' \<and>
   Scanner_ScanString defaultScanner ''# robot: beep=boop:'' = Inl ErrMalformed \<and>
   \<not> danglingColon '' sw=3'' \<and>
   (\<exists>opts. Scanner_ScanString defaultScanner ''# vim: sw=3'' =
      Inr \<lparr>Program = ''vim'', Options = opts, RawLine = ''# vim: sw=3''\<rparr>)"
  using ScanString_failure_kinds [of defaultScanner "''# robot: beep=boop:''"]
    ScanString_failure_kinds [of defaultScanner "''# vim: sw=3''"]
    eval_robot_colon_program eval_vim_sw3 [of defaultScanner]
  by (auto simp: danglingColon_def isBlank_def)

text \<open>
  Claim C7. The second-form line \<open>/* vim:set sw=3 foldmethod=marker: */ random text\<close>
  parses to program \<open>vim\<close> with the options \<open>sw = 3\<close> and \<open>foldmethod = marker\<close>: the
  keyword \<open>set \<close> is stripped, the option region ends at the next colon, and whatever
  text follows that colon, it changes neither the program nor the options.
\<close>

theorem second_form_example:
  "Scanner_ScanString s ''/* vim:set sw=3 foldmethod=marker: */ random text'' =
     Inr \<lparr>Program = ''vim'', Options = [''sw'' \<mapsto> ''3'', ''foldmethod'' \<mapsto> ''marker''],
          RawLine = ''/* vim:set sw=3 foldmethod=marker: */ random text''\<rparr> \<and>
   (\<forall>tail. Scanner_ScanString s (''/* vim:set sw=3 foldmethod=marker:'' @ tail) =
     Inr \<lparr>Program = ''vim'', Options = [''sw'' \<mapsto> ''3'', ''foldmethod'' \<mapsto> ''marker''],
          RawLine = ''/* vim:set sw=3 foldmethod=marker:'' @ tail\<rparr>)"
proof -
  have "Scanner_ScanString s (''/* vim:set sw=3 foldmethod=marker:'' @ tail) =
     Inr \<lparr>Program = ''vim'', Options = [''sw'' \<mapsto> ''3'', ''foldmethod'' \<mapsto> ''marker''],
          RawLine = ''/* vim:set sw=3 foldmethod=marker:'' @ tail\<rparr>" for tail
    by (simp add: Scanner_ScanString_def findProgram_def findProgramFrom.simps skipBlank.simps
      skipWord.simps isBlank_def isWordChar_def parseOptions_def TrimLeft_def
      HasPrefix_def parseSecondForm_def parseFirstForm_def FieldsFunc_def isSeparator_def
      parseOption_def Cut_def)
  from this this [of "'' */ random text''"] show ?thesis
    by simp
qed

section \<open>Option decoding\<close>

lemma HasPrefix_single: "HasPrefix (x # xs) [c] \<longleftrightarrow> x = c"
  by (simp add: HasPrefix_def)

lemma Index_single:
  "Index t [c] =
     (if c \<in> set t then Some (length (takeWhile (\<lambda>d. d \<noteq> c) t)) else None)"
  by (induction t) (auto simp: HasPrefix_single HasPrefix_def)

lemma Cut_single:
  "Cut t [c] =
     (if c \<in> set t
      then (takeWhile (\<lambda>d. d \<noteq> c) t, tl (dropWhile (\<lambda>d. d \<noteq> c) t), True)
      else (t, [], False))"
  by (simp add: Cut_def Index_single takeWhile_eq_take [symmetric] dropWhile_eq_drop
      drop_Suc tl_drop)

lemma no_prefix: "HasPrefix t ''no'' \<and> 2 < length t \<longleftrightarrow> take 2 t = ''no'' \<and> drop 2 t \<noteq> []"
proof -
  have "HasPrefix t ''no'' \<longleftrightarrow> take 2 t = ''no''"
    using HasPrefix_take [of "''no''" t] by (simp add: eval_nat_numeral)
  then show ?thesis
    by auto
qed

lemma parseOption_decodeToken: "parseOption token = decodeToken token"
  using no_prefix [of token] by (simp add: parseOption_def decodeToken_def Cut_single)

lemma decodeToken_Nil: "decodeToken [] = ([], ''true'')"
  by (simp add: decodeToken_def)

lemma lastValue_Nil: "lastValue [] name = None"
  by (simp add: lastValue_def)

lemma lastValue_Cons:
  "lastValue (t # ts) name =
     (case lastValue ts name of
        Some v \<Rightarrow> Some v
      | None \<Rightarrow> if fst (decodeToken t) = name then Some (snd (decodeToken t)) else None)"
  by (simp add: lastValue_def split: list.splits)

lemma parseTokens_lookup:
  "parseTokens tokens opts name =
     (if name = [] then opts name
      else case lastValue tokens name of Some v \<Rightarrow> Some v | None \<Rightarrow> opts name)"
proof (induction tokens arbitrary: opts)
  case Nil
  show ?case by (simp add: lastValue_Nil)
next
  case (Cons t ts)
  obtain k v where d: "decodeToken t = (k, v)"
    by (cases "decodeToken t")
  have e: "k = []" if "t = []"
    using that d by (simp add: decodeToken_Nil)
  have step: "parseTokens (t # ts) opts =
      (if k = [] then parseTokens ts opts else parseTokens ts (opts(k \<mapsto> v)))"
    using e by (simp add: parseOption_decodeToken d)
  have "parseTokens (t # ts) opts name =
      (if k = [] then parseTokens ts opts name else parseTokens ts (opts(k \<mapsto> v)) name)"
    unfolding step by simp
  also have "\<dots> =
      (if k = [] then
         (if name = [] then opts name
          else case lastValue ts name of Some v \<Rightarrow> Some v | None \<Rightarrow> opts name)
       else
         (if name = [] then (opts(k \<mapsto> v)) name
          else case lastValue ts name of Some v \<Rightarrow> Some v | None \<Rightarrow> (opts(k \<mapsto> v)) name))"
    by (simp only: Cons.IH)
  also have "\<dots> =
      (if name = [] then opts name
       else case lastValue (t # ts) name of Some v \<Rightarrow> Some v | None \<Rightarrow> opts name)"
    by (auto simp: lastValue_Cons d split: option.splits)
  finally show ?case .
qed

lemma spans_tokens:
  "\<forall>c\<in>set cur. \<not> f c \<Longrightarrow> t \<in> set (spans f cur cs) \<Longrightarrow>
     t \<noteq> [] \<and> (\<forall>c\<in>set t. \<not> f c)"
proof (induction cs arbitrary: cur)
  case Nil
  then show ?case
    by (cases "cur = []") auto
next
  case (Cons c cs)
  show ?case
  proof (cases "f c")
    case True
    with Cons.prems have "t = cur \<and> cur \<noteq> [] \<or> t \<in> set (spans f [] cs)"
      by (cases "cur = []") auto
    then show ?thesis
    proof
      assume "t = cur \<and> cur \<noteq> []"
      with Cons.prems(1) show ?thesis by blast
    next
      assume "t \<in> set (spans f [] cs)"
      with Cons.IH [of "[]"] show ?thesis by simp
    qed
  next
    case False
    with Cons.prems have "t \<in> set (spans f (cur @ [c]) cs)" "\<forall>d\<in>set (cur @ [c]). \<not> f d"
      by auto
    with Cons.IH [of "cur @ [c]"] show ?thesis by blast
  qed
qed

lemma FieldsFunc_tokens:
  "t \<in> set (FieldsFunc s f) \<Longrightarrow> t \<noteq> [] \<and> (\<forall>c\<in>set t. \<not> f c)"
  using spans_tokens [of "[]" f t s] by (simp add: FieldsFunc_def)

text \<open>
  Claim C4, as the code has it. The tokens of the option region are non-empty and free
  of blanks and colons. A token with \<open>=\<close> decodes to the text before the first \<open>=\<close> and
  the text after it; otherwise a token with the prefix \<open>no\<close> and at least one more
  character decodes to the text after \<open>no\<close> and \<open>false\<close>; otherwise to itself and
  \<open>true\<close>. The mapping holds, under each non-empty name, the value of the last token
  that decodes to that name, and holds nothing under the empty name.
\<close>

theorem parseFirstForm_last_token_wins:
  "(\<forall>token\<in>set (FieldsFunc region isSeparator).
      token \<noteq> [] \<and> (\<forall>c\<in>set token. \<not> isSeparator c)) \<and>
   (\<forall>token. parseOption token = decodeToken token) \<and>
   (\<forall>name. parseFirstForm region name =
      (if name = [] then None else lastValue (FieldsFunc region isSeparator) name))"
  using FieldsFunc_tokens [of _ region isSeparator]
  by (auto simp: parseOption_decodeToken parseFirstForm_def parseTokens_lookup
      split: option.splits)

lemma eval_tokens: "FieldsFunc ''sw=3:noai  sw=4'' isSeparator = [''sw=3'', ''noai'', ''sw=4'']"
  by (simp add: FieldsFunc_def isSeparator_def)

theorem parseFirstForm_last_token_wins_witness:
  "FieldsFunc ''sw=3:noai  sw=4'' isSeparator = [''sw=3'', ''noai'', ''sw=4''] \<and>
   parseFirstForm ''sw=3:noai  sw=4'' ''sw'' = Some ''4'' \<and>
   parseFirstForm ''sw=3:noai  sw=4'' ''ai'' = Some ''false'' \<and>
   parseFirstForm ''sw=3:noai  sw=4'' '''' = None"
  using parseFirstForm_last_token_wins [of "''sw=3:noai  sw=4''"]
  by (simp add: eval_tokens lastValue_def decodeToken_def)

text \<open>
  The token \<open>=x\<close> is not empty and decodes to the empty name with value \<open>x\<close>, yet the
  mapping records nothing for it.
\<close>

theorem empty_name_not_recorded:
  "FieldsFunc ''=x'' isSeparator = [''=x''] \<and> parseOption ''=x'' = ('''', ''x'') \<and>
   parseFirstForm ''=x'' '''' = None"
  by (simp add: parseFirstForm_def FieldsFunc_def isSeparator_def parseOption_def Cut_def
      HasPrefix_def)

lemma parseTokens_no_empty_key: "opts [] = None \<Longrightarrow> parseTokens tokens opts [] = None"
  by (simp add: parseTokens_lookup)

lemma parseOptions_no_empty_key: "parseOptions rest = Inr opts \<Longrightarrow> opts [] = None"
  by (auto simp: parseOptions_def parseSecondForm_def parseFirstForm_def Let_def
      parseTokens_no_empty_key split: if_splits option.splits)

text \<open>
  Claim C10. No successful parse has the empty string among the keys of its options:
  a token whose decoded name is empty, such as \<open>=value\<close>, leaves the mapping as it was.
\<close>

theorem Options_keys_nonempty:
  "(\<forall>m. Scanner_ScanString s line = Inr m \<longrightarrow> [] \<notin> dom (Options m)) \<and>
   (\<forall>token tokens opts. fst (parseOption token) = [] \<longrightarrow>
      parseTokens (token # tokens) opts = parseTokens tokens opts) \<and>
   fst (parseOption ''=value'') = [] \<and>
   parseFirstForm ''=value'' = Map.empty"
proof (intro conjI allI impI)
  fix m assume "Scanner_ScanString s line = Inr m"
  then show "[] \<notin> dom (Options m)"
    by (auto simp: ScanString_Inr_iff dest: parseOptions_no_empty_key)
next
  fix token tokens and opts :: "string \<rightharpoonup> string"
  assume "fst (parseOption token) = []"
  then show "parseTokens (token # tokens) opts = parseTokens tokens opts"
    by (cases "parseOption token") simp
next
  show "fst (parseOption ''=value'') = []"
    by (simp add: parseOption_def Cut_def HasPrefix_def)
  show "parseFirstForm ''=value'' = Map.empty"
    by (simp add: parseFirstForm_def FieldsFunc_def isSeparator_def parseOption_def Cut_def
        HasPrefix_def)
qed

lemma eval_vim_empty_name:
  "Scanner_ScanString s ''# vim: =value sw=3'' =
     Inr \<lparr>Program = ''vim'', Options = [''sw'' \<mapsto> ''3''], RawLine = ''# vim: =value sw=3''\<rparr>"
  by (simp add: Scanner_ScanString_def findProgram_def findProgramFrom.simps skipBlank.simps
      skipWord.simps isBlank_def isWordChar_def parseOptions_def TrimLeft_def TrimRight_def
      HasPrefix_def HasSuffix_def parseFirstForm_def FieldsFunc_def isSeparator_def
      parseOption_def Cut_def)

theorem Options_keys_nonempty_witness:
  "\<exists>m. Scanner_ScanString defaultScanner ''# vim: =value sw=3'' = Inr m \<and>
     [] \<notin> dom (Options m) \<and> dom (Options m) = {''sw''} \<and>
     parseTokens [''=value'', ''sw=3''] Map.empty = parseTokens [''sw=3''] Map.empty"
  using Options_keys_nonempty [of defaultScanner "''# vim: =value sw=3''"]
    eval_vim_empty_name [of defaultScanner]
  by auto

section \<open>The loops of the window scanner\<close>

lemma successes_Nil [simp]: "successes s [] = []"
  by (simp add: successes_def)

lemma successes_Cons:
  "successes s (l # ls) =
     (case Scanner_ScanString s l of Inr m \<Rightarrow> [m] | Inl e \<Rightarrow> []) @ successes s ls"
  by (simp add: successes_def)

lemma successes_append [simp]: "successes s (xs @ ys) = successes s xs @ successes s ys"
  by (simp add: successes_def)

lemma append_parsed:
  "(case Scanner_ScanString s l of Inr m \<Rightarrow> ms @ [m] | Inl e \<Rightarrow> ms) = ms @ successes s [l]"
  by (simp add: successes_Cons split: sum.split)

lemma readTop_result:
  "readTop s sc lc ms = (sc', lc', ms') \<Longrightarrow>
     ms' = ms @ successes s (take (nat (MaxLines s - lc)) (pending sc)) \<and>
     pending sc' = drop (Suc (nat (MaxLines s - lc))) (pending sc) \<and>
     broken sc' = broken sc \<and>
     err sc' = (if length (pending sc) \<le> nat (MaxLines s - lc) then broken sc else err sc) \<and>
     lc' = lc + int (min (nat (MaxLines s - lc)) (length (pending sc)))"
proof (induction "pending sc" arbitrary: sc lc ms)
  case Nil
  from Nil(1) [symmetric] Nil(2) show ?case
    by (subst (asm) readTop.simps) (auto simp: bufio_Scan_def)
next
  case (Cons l ls)
  define sc2 where "sc2 = sc\<lparr>pending := ls, tok := l\<rparr>"
  have scan: "bufio_Scan sc = (True, sc2)"
    using Cons(2) [symmetric] by (simp add: bufio_Scan_def sc2_def)
  show ?case
  proof (cases "lc < MaxLines s")
    case True
    then have k: "nat (MaxLines s - lc) = Suc (nat (MaxLines s - (lc + 1)))"
      by simp
    have "ls = pending sc2"
      by (simp add: sc2_def)
    moreover from Cons(3) True
    have "readTop s sc2 (lc + 1) (ms @ successes s [l]) = (sc', lc', ms')"
      by (subst (asm) readTop.simps) (simp add: scan append_parsed bufio_Text_def sc2_def)
    ultimately have
      "ms' = (ms @ successes s [l]) @ successes s (take (nat (MaxLines s - (lc + 1))) (pending sc2)) \<and>
       pending sc' = drop (Suc (nat (MaxLines s - (lc + 1)))) (pending sc2) \<and>
       broken sc' = broken sc2 \<and>
       err sc' = (if length (pending sc2) \<le> nat (MaxLines s - (lc + 1)) then broken sc2 else err sc2) \<and>
       lc' = (lc + 1) + int (min (nat (MaxLines s - (lc + 1))) (length (pending sc2)))"
      by (rule Cons(1))
    then show ?thesis
      unfolding k Cons(2) [symmetric] by (simp add: sc2_def successes_Cons)
  next
    case False
    then have k: "nat (MaxLines s - lc) = 0"
      by simp
    from Cons(3) False have "(sc2, lc, ms) = (sc', lc', ms')"
      by (subst (asm) readTop.simps) (simp add: scan)
    then show ?thesis
      unfolding k Cons(2) [symmetric] by (auto simp: sc2_def)
  qed
qed

lemma shift_buffer:
  assumes "buf \<noteq> []"
  shows "(tl buf @ [last buf])[length buf - 1 := l] = drop 1 (buf @ [l])"
proof -
  from assms obtain b bs where "buf = b # bs"
    by (cases buf) auto
  then show ?thesis
    by (simp add: list_update_append)
qed

lemma fillBottom_result:
  "fillBottom s sc buf lc = Inr (sc', buf', lc') \<Longrightarrow> int (length buf) \<le> MaxLines s \<Longrightarrow>
     (\<exists>n. buf' = drop n (buf @ pending sc)) \<and> int (length buf') \<le> MaxLines s \<and>
     lc' = lc + int (length (pending sc)) \<and> err sc' = broken sc"
proof (induction "pending sc" arbitrary: sc buf lc)
  case Nil
  from Nil(1) [symmetric] Nil(2) Nil(3) show ?case
    by (subst (asm) fillBottom.simps) (auto simp: bufio_Scan_def intro: exI [of _ 0])
next
  case (Cons l ls)
  define sc2 where "sc2 = sc\<lparr>pending := ls, tok := l\<rparr>"
  have scan: "bufio_Scan sc = (True, sc2)"
    using Cons(2) [symmetric] by (simp add: bufio_Scan_def sc2_def)
  have p2: "ls = pending sc2"
    by (simp add: sc2_def)
  show ?case
  proof (cases "int (length buf) < MaxLines s")
    case True
    with Cons(3) have A: "fillBottom s sc2 (buf @ [l]) (lc + 1) = Inr (sc', buf', lc')"
      by (subst (asm) fillBottom.simps) (simp add: scan bufio_Text_def sc2_def)
    from True have B: "int (length (buf @ [l])) \<le> MaxLines s"
      by simp
    have "(\<exists>n. buf' = drop n ((buf @ [l]) @ ls)) \<and>
        int (length buf') \<le> MaxLines s \<and> lc' = (lc + 1) + int (length ls) \<and>
        err sc' = broken sc"
      using Cons(1) [OF p2 A B] unfolding p2 [symmetric] by (simp add: sc2_def)
    then show ?thesis
      unfolding Cons(2) [symmetric] by simp
  next
    case False
    with Cons(4) have full: "int (length buf) = MaxLines s"
      by simp
    from Cons(3) False have ne: "buf \<noteq> []"
      by (subst (asm) fillBottom.simps) (auto simp: scan Let_def split: if_splits)
    have idx: "nat (MaxLines s - 1) = length buf - 1"
      using full by simp
    from Cons(3) False ne
    have "fillBottom s sc2 ((tl buf @ [last buf])[nat (MaxLines s - 1) := l]) (lc + 1) =
        Inr (sc', buf', lc')"
      by (subst (asm) fillBottom.simps)
         (auto simp: scan Let_def bufio_Text_def sc2_def split: if_splits)
    then have A: "fillBottom s sc2 (drop 1 (buf @ [l])) (lc + 1) = Inr (sc', buf', lc')"
      unfolding idx shift_buffer [OF ne] .
    have B: "int (length (drop 1 (buf @ [l]))) \<le> MaxLines s"
      using full by simp
    have C: "(\<exists>n. buf' = drop n (drop 1 (buf @ [l]) @ ls)) \<and>
        int (length buf') \<le> MaxLines s \<and> lc' = (lc + 1) + int (length ls) \<and>
        err sc' = broken sc"
      using Cons(1) [OF p2 A B] unfolding p2 [symmetric] by (simp add: sc2_def)
    then obtain n where n: "buf' = drop n (drop 1 (buf @ [l]) @ ls)"
      by blast
    from ne have "drop 1 (buf @ [l]) @ ls = drop 1 (buf @ l # ls)"
      by (cases buf) simp_all
    then have "drop n (drop 1 (buf @ [l]) @ ls) = drop (n + 1) (buf @ l # ls)"
      by (simp only: drop_drop)
    with n have "\<exists>n. buf' = drop n (buf @ l # ls)"
      by blast
    with C show ?thesis
      unfolding Cons(2) [symmetric] by simp
  qed
qed

lemma parseBottom_result:
  "0 \<le> i \<Longrightarrow> parseBottom s buf i ms = Inr (ms @ successes s (drop (nat i) buf))"
proof (induction "length buf - nat i" arbitrary: i ms)
  case 0
  then show ?case
    by (subst parseBottom.simps) auto
next
  case (Suc n)
  then have i: "nat i < length buf" "i < int (length buf)"
    by auto
  have "n = length buf - nat (i + 1)" "0 \<le> i + 1"
    using Suc(2,3) by auto
  then have "parseBottom s buf (i + 1) (ms @ successes s [buf ! nat i]) =
      Inr ((ms @ successes s [buf ! nat i]) @ successes s (drop (nat (i + 1)) buf))"
    by (rule Suc(1))
  moreover have "drop (nat i) buf = buf ! nat i # drop (nat (i + 1)) buf"
    using i Suc(3) by (simp add: Cons_nth_drop_Suc nat_add_distrib)
  ultimately show ?case
    using i Suc(3) by (subst parseBottom.simps) (simp add: append_parsed successes_Cons)
qed

lemma fillBottom_total:
  "1 \<le> MaxLines s \<Longrightarrow> int (length buf) \<le> MaxLines s \<Longrightarrow>
     \<exists>sc' buf' lc'. fillBottom s sc buf lc = Inr (sc', buf', lc')"
proof (induction "pending sc" arbitrary: sc buf lc)
  case Nil
  from Nil(1) [symmetric] show ?case
    by (subst fillBottom.simps) (simp add: bufio_Scan_def)
next
  case (Cons l ls)
  define sc2 where "sc2 = sc\<lparr>pending := ls, tok := l\<rparr>"
  have scan: "bufio_Scan sc = (True, sc2)"
    using Cons(2) [symmetric] by (simp add: bufio_Scan_def sc2_def)
  have p2: "ls = pending sc2"
    by (simp add: sc2_def)
  have t2: "tok sc2 = l"
    by (simp add: sc2_def)
  show ?case
  proof (cases "int (length buf) < MaxLines s")
    case True
    then have "int (length (buf @ [l])) \<le> MaxLines s"
      by simp
    then have B: "int (length (buf @ [l])) \<le> MaxLines s" .
    have A: "fillBottom s sc buf lc = fillBottom s sc2 (buf @ [l]) (lc + 1)"
      using True by (subst fillBottom.simps) (simp add: scan Let_def bufio_Text_def t2)
    show ?thesis
      unfolding A by (rule Cons(1) [OF p2 Cons(3) B])
  next
    case False
    with Cons(3,4) have full: "int (length buf) = MaxLines s" and ne: "buf \<noteq> []"
      by auto
    have idx: "nat (MaxLines s - 1) = length buf - 1"
      using full by simp
    have B: "int (length (drop 1 (buf @ [l]))) \<le> MaxLines s"
      using full by simp
    have A: "fillBottom s sc buf lc =
        fillBottom s sc2 ((tl buf @ [last buf])[nat (MaxLines s - 1) := l]) (lc + 1)"
      using False ne Cons(3) full
      by (subst fillBottom.simps) (simp add: scan Let_def bufio_Text_def t2)
    show ?thesis
      unfolding A idx shift_buffer [OF ne] by (rule Cons(1) [OF p2 Cons(3) B])
  qed
qed

lemma parseBottom_Inr:
  assumes "parseBottom s buf i ms = Inr ms'"
  shows "ms' = ms @ successes s (drop (nat i) buf)"
proof (cases "0 \<le> i")
  case True
  with assms show ?thesis
    by (simp add: parseBottom_result)
next
  case False
  then have "parseBottom s buf i ms = Inl RuntimePanic"
    by (subst parseBottom.simps) simp
  with assms show ?thesis
    by simp
qed

lemma Scan_window:
  assumes "Scan s r = Inr ms"
  shows "\<exists>a b. a \<le> b \<and> ms = successes s (take a (content r) @ drop b (content r))"
proof -
  define ls where "ls = content r"
  define sc0 where "sc0 = NewScanner r"
  have p0: "pending sc0 = ls"
    by (simp add: sc0_def ls_def NewScanner_def)
  have top_only: "\<exists>a b. a \<le> b \<and> ms1 = successes s (take a ls @ drop b ls)"
    if "ms1 = successes s (take k ls)" for ms1 k
    using that by (intro exI [of _ k] exI [of _ "max k (length ls)"]) simp
  consider (neither) "\<not> ScanTop s" "\<not> ScanBottom s"
    | (top) "ScanTop s" "\<not> ScanBottom s"
    | (bottom) "ScanBottom s"
    by blast
  then have "\<exists>a b. a \<le> b \<and> ms = successes s (take a ls @ drop b ls)"
  proof cases
    case neither
    with assms have "ms = []"
      by (simp add: Scan_def)
    then show ?thesis
      by (intro top_only [of _ 0]) simp
  next
    case top
    obtain sc1 lc1 ms1 where rt: "readTop s sc0 0 [] = (sc1, lc1, ms1)"
      by (cases "readTop s sc0 0 []") auto
    with assms top have "ms = ms1"
      by (simp add: Scan_def sc0_def [symmetric] split: if_splits)
    with readTop_result [OF rt] p0 show ?thesis
      by (intro top_only [of _ "nat (MaxLines s)"]) simp
  next
    case bottom
    obtain sc1 lc1 ms1 where rt:
      "(if ScanTop s then readTop s sc0 0 [] else (sc0, 0, [])) = (sc1, lc1, ms1)"
      by (cases "if ScanTop s then readTop s sc0 0 [] else (sc0, 0, [])") auto
    have "\<exists>k d. k \<le> d \<and> ms1 = successes s (take k ls) \<and> pending sc1 = drop d ls"
    proof (cases "ScanTop s")
      case True
      with rt have "readTop s sc0 0 [] = (sc1, lc1, ms1)"
        by simp
      from readTop_result [OF this] p0 show ?thesis
        by (intro exI [of _ "nat (MaxLines s)"] exI [of _ "Suc (nat (MaxLines s))"]) simp
    next
      case False
      with rt p0 show ?thesis
        by (intro exI [of _ 0]) simp
    qed
    then obtain k d where kd: "k \<le> d" and ms1: "ms1 = successes s (take k ls)"
      and p1: "pending sc1 = drop d ls"
      by blast
    from assms bottom rt have cap: "makeCapOk (MaxLines s)"
      by (auto simp: Scan_def Let_def sc0_def [symmetric] split: if_splits)
    from assms bottom rt cap obtain sc2 buf lc2
      where fb: "fillBottom s sc1 [] lc1 = Inr (sc2, buf, lc2)"
      by (cases "fillBottom s sc1 [] lc1")
         (auto simp: Scan_def Let_def sc0_def [symmetric] split: if_splits)
    from cap have "int (length ([] :: string list)) \<le> MaxLines s"
      by (simp add: makeCapOk_def)
    from fillBottom_result [OF fb this] p1 obtain n where buf: "buf = drop (n + d) ls"
      by auto
    define startIdx where "startIdx =
      (if ScanTop s \<and> lc2 < 2 * MaxLines s then MaxLines s - (2 * MaxLines s - lc2) else 0)"
    from assms bottom rt cap fb
    have "ms = ms1 \<or> parseBottom s buf startIdx ms1 = Inr ms"
      by (auto simp: Scan_def Let_def sc0_def [symmetric] startIdx_def split: if_splits)
    then show ?thesis
    proof
      assume "ms = ms1"
      with ms1 show ?thesis
        by (intro top_only [of _ k]) simp
    next
      assume "parseBottom s buf startIdx ms1 = Inr ms"
      from parseBottom_Inr [OF this]
      have "ms = successes s (take k ls @ drop (nat startIdx + (n + d)) ls)"
        by (simp add: ms1 buf)
      with kd show ?thesis
        by (intro exI [of _ k] exI [of _ "nat startIdx + (n + d)"]) simp
    qed
  qed
  then show ?thesis
    by (simp add: ls_def)
qed

lemma successes_positions:
  "\<exists>idxs. sorted_wrt (<) idxs \<and> (\<forall>i\<in>set idxs. i < length xs) \<and>
     map Inr (successes s xs) = map (\<lambda>i. Scanner_ScanString s (xs ! i)) idxs"
proof (induction xs)
  case Nil
  show ?case
    by (intro exI [of _ "[]"]) simp
next
  case (Cons x xs)
  then obtain idxs where sorted: "sorted_wrt (<) idxs" and bound: "\<forall>i\<in>set idxs. i < length xs"
    and vals: "map Inr (successes s xs) = map (\<lambda>i. Scanner_ScanString s (xs ! i)) idxs"
    by blast
  define tl_idxs where "tl_idxs = map Suc idxs"
  have t1: "sorted_wrt (<) tl_idxs"
    using sorted by (simp add: tl_idxs_def sorted_wrt_map)
  have t2: "\<forall>i\<in>set tl_idxs. 0 < i \<and> i < length (x # xs)"
    using bound by (auto simp: tl_idxs_def)
  have t3: "map Inr (successes s xs) = map (\<lambda>i. Scanner_ScanString s ((x # xs) ! i)) tl_idxs"
    by (simp add: vals tl_idxs_def comp_def)
  show ?case
  proof (cases "Scanner_ScanString s x")
    case (Inl e)
    with t1 t2 t3 show ?thesis
      by (intro exI [of _ tl_idxs]) (simp add: successes_Cons)
  next
    case (Inr m)
    with t1 t2 t3 show ?thesis
      by (intro exI [of _ "0 # tl_idxs"]) (auto simp: successes_Cons)
  qed
qed

lemma window_positions:
  assumes "a \<le> b"
  shows "\<exists>idxs. sorted_wrt (<) idxs \<and> (\<forall>i\<in>set idxs. i < length ls) \<and>
     map Inr (successes s (take a ls @ drop b ls)) =
       map (\<lambda>i. Scanner_ScanString s (ls ! i)) idxs"
proof -
  obtain is1 where s1: "sorted_wrt (<) is1" and b1: "\<forall>i\<in>set is1. i < length (take a ls)"
    and v1: "map Inr (successes s (take a ls)) =
      map (\<lambda>i. Scanner_ScanString s (take a ls ! i)) is1"
    using successes_positions [of "take a ls" s] by blast
  obtain is2 where s2: "sorted_wrt (<) is2" and b2: "\<forall>i\<in>set is2. i < length (drop b ls)"
    and v2: "map Inr (successes s (drop b ls)) =
      map (\<lambda>i. Scanner_ScanString s (drop b ls ! i)) is2"
    using successes_positions [of "drop b ls" s] by blast
  define js where "js = map (\<lambda>i. b + i) is2"
  have "map (\<lambda>i. Scanner_ScanString s (take a ls ! i)) is1 =
      map (\<lambda>i. Scanner_ScanString s (ls ! i)) is1"
    using b1 by (intro map_cong) auto
  with v1 have w1: "map Inr (successes s (take a ls)) =
      map (\<lambda>i. Scanner_ScanString s (ls ! i)) is1"
    by simp
  have "drop b ls ! i = ls ! (b + i)" if "i \<in> set is2" for i
  proof -
    from that b2 have "i < length ls - b"
      by simp
    then have "b \<le> length ls"
      by simp
    then show ?thesis
      by (rule nth_drop)
  qed
  then have "map (\<lambda>i. Scanner_ScanString s (drop b ls ! i)) is2 =
      map (\<lambda>i. Scanner_ScanString s (ls ! i)) js"
    by (simp add: js_def comp_def)
  with v2 have w2: "map Inr (successes s (drop b ls)) =
      map (\<lambda>i. Scanner_ScanString s (ls ! i)) js"
    by simp
  have "sorted_wrt (<) js"
    using s2 by (simp add: js_def sorted_wrt_map)
  moreover have "\<forall>i\<in>set is1. i < a \<and> i < length ls"
    using b1 by auto
  moreover have "\<forall>j\<in>set js. b \<le> j \<and> j < length ls"
    using b2 by (auto simp: js_def)
  ultimately have "sorted_wrt (<) (is1 @ js)" "\<forall>i\<in>set (is1 @ js). i < length ls"
    using s1 assms by (fastforce simp: sorted_wrt_append)+
  moreover have "map Inr (successes s (take a ls @ drop b ls)) =
      map (\<lambda>i. Scanner_ScanString s (ls ! i)) (is1 @ js)"
    by (simp add: w1 w2)
  ultimately show ?thesis
    by blast
qed

section \<open>What a scan returns\<close>

lemma eval_envctl:
  "Scanner_ScanString s ''# envctl: provider=gsm'' =
     Inr \<lparr>Program = ''envctl'', Options = [''provider'' \<mapsto> ''gsm''],
          RawLine = ''# envctl: provider=gsm''\<rparr>"
  by (simp add: Scanner_ScanString_def findProgram_def findProgramFrom.simps skipBlank.simps
      skipWord.simps isBlank_def isWordChar_def parseOptions_def TrimLeft_def TrimRight_def
      HasPrefix_def HasSuffix_def parseFirstForm_def FieldsFunc_def isSeparator_def
      parseOption_def Cut_def)

lemma eval_plain_lines:
  "Scanner_ScanString s ''line 1'' = Inl ErrNoModeline"
  "Scanner_ScanString s ''line 2'' = Inl ErrNoModeline"
  "Scanner_ScanString s ''line 3'' = Inl ErrNoModeline"
  "Scanner_ScanString s ''line 4'' = Inl ErrNoModeline"
  "Scanner_ScanString s ''line 5'' = Inl ErrNoModeline"
  "Scanner_ScanString s ''line 6'' = Inl ErrNoModeline"
  by (simp_all add: Scanner_ScanString_def findProgram_def findProgramFrom.simps skipBlank.simps
      skipWord.simps isBlank_def isWordChar_def)

lemma Scan_short_both:
  assumes "Scanner_ScanString \<lparr>ScanTop = True, ScanBottom = True, MaxLines = 5\<rparr> l1 = Inr m"
    and "Scanner_ScanString \<lparr>ScanTop = True, ScanBottom = True, MaxLines = 5\<rparr> l2 = Inl e2"
    and "Scanner_ScanString \<lparr>ScanTop = True, ScanBottom = True, MaxLines = 5\<rparr> l3 = Inl e3"
  shows "Scan \<lparr>ScanTop = True, ScanBottom = True, MaxLines = 5\<rparr>
      \<lparr>content = [l1, l2, l3], failing = False\<rparr> = Inr [m]"
  using assms
  by (simp add: Scan_def NewScanner_def makeCapOk_def readTop.simps fillBottom.simps
      bufio_Scan_def bufio_Text_def bufio_Err_def)

text \<open>
  Claim C2. Whatever the source and the configuration, the results of a scan are the
  successful parses of lines at strictly increasing positions of the source: no line
  position yields two results. In particular a three-line source whose first line is
  its only modeline, scanned from both edges with five lines per edge, gives exactly
  one result.
\<close>

theorem Scan_no_line_twice:
  "(\<forall>ms. Scan s r = Inr ms \<longrightarrow>
      (\<exists>idxs. sorted_wrt (<) idxs \<and> (\<forall>i\<in>set idxs. i < length (content r)) \<and>
         map Inr ms = map (\<lambda>i. Scanner_ScanString s (content r ! i)) idxs)) \<and>
   (\<forall>l1 l2 l3 m e2 e3.
      Scanner_ScanString \<lparr>ScanTop = True, ScanBottom = True, MaxLines = 5\<rparr> l1 = Inr m \<and>
      Scanner_ScanString \<lparr>ScanTop = True, ScanBottom = True, MaxLines = 5\<rparr> l2 = Inl e2 \<and>
      Scanner_ScanString \<lparr>ScanTop = True, ScanBottom = True, MaxLines = 5\<rparr> l3 = Inl e3 \<longrightarrow>
      Scan \<lparr>ScanTop = True, ScanBottom = True, MaxLines = 5\<rparr>
        \<lparr>content = [l1, l2, l3], failing = False\<rparr> = Inr [m])"
proof (intro conjI allI impI)
  fix ms assume "Scan s r = Inr ms"
  then obtain a b where "a \<le> b"
    and "ms = successes s (take a (content r) @ drop b (content r))"
    using Scan_window by blast
  with window_positions [of a b "content r" s]
  show "\<exists>idxs. sorted_wrt (<) idxs \<and> (\<forall>i\<in>set idxs. i < length (content r)) \<and>
         map Inr ms = map (\<lambda>i. Scanner_ScanString s (content r ! i)) idxs"
    by simp
next
  fix l1 l2 l3 m e2 e3
  assume "Scanner_ScanString \<lparr>ScanTop = True, ScanBottom = True, MaxLines = 5\<rparr> l1 = Inr m \<and>
      Scanner_ScanString \<lparr>ScanTop = True, ScanBottom = True, MaxLines = 5\<rparr> l2 = Inl e2 \<and>
      Scanner_ScanString \<lparr>ScanTop = True, ScanBottom = True, MaxLines = 5\<rparr> l3 = Inl e3"
  then show "Scan \<lparr>ScanTop = True, ScanBottom = True, MaxLines = 5\<rparr>
        \<lparr>content = [l1, l2, l3], failing = False\<rparr> = Inr [m]"
    by (intro Scan_short_both) auto
qed

theorem Scan_no_line_twice_witness:
  "Scan \<lparr>ScanTop = True, ScanBottom = True, MaxLines = 5\<rparr>
     \<lparr>content = [''# vim: sw=3'', ''line 2'', ''line 3''], failing = False\<rparr> =
     Inr [\<lparr>Program = ''vim'', Options = [''sw'' \<mapsto> ''3''], RawLine = ''# vim: sw=3''\<rparr>] \<and>
   (\<exists>idxs. sorted_wrt (<) idxs \<and>
      map Inr [\<lparr>Program = ''vim'', Options = [''sw'' \<mapsto> ''3''], RawLine = ''# vim: sw=3''\<rparr>] =
      map (\<lambda>i. Scanner_ScanString \<lparr>ScanTop = True, ScanBottom = True, MaxLines = 5\<rparr>
             ([''# vim: sw=3'', ''line 2'', ''line 3''] ! i)) idxs)"
proof -
  let ?s = "\<lparr>ScanTop = True, ScanBottom = True, MaxLines = 5\<rparr>"
  let ?r = "\<lparr>content = [''# vim: sw=3'', ''line 2'', ''line 3''], failing = False\<rparr>"
  note inst = Scan_no_line_twice [of ?s ?r]
  from inst have "Scan ?s ?r =
      Inr [\<lparr>Program = ''vim'', Options = [''sw'' \<mapsto> ''3''], RawLine = ''# vim: sw=3''\<rparr>]"
    using eval_vim_sw3 [of ?s] eval_plain_lines(2,3) [of ?s] by blast
  with inst show ?thesis
    by auto
qed

section \<open>Overlapping windows\<close>

lemma Scan_overlap:
  assumes both: "ScanTop s" "ScanBottom s"
    and M: "1 \<le> MaxLines s" "makeCapOk (MaxLines s)"
    and ok: "\<not> failing r"
    and len: "MaxLines s < int (length (content r))" "int (length (content r)) \<le> 2 * MaxLines s"
  shows "Scan s r = Inr (successes s (take (nat (MaxLines s)) (content r)))"
proof -
  define ls where "ls = content r"
  define sc0 where "sc0 = NewScanner r"
  have p0: "pending sc0 = ls" "broken sc0 = False" "err sc0 = False"
    using ok by (simp_all add: sc0_def ls_def NewScanner_def)
  obtain sc1 lc1 ms1 where rt: "readTop s sc0 0 [] = (sc1, lc1, ms1)"
    by (cases "readTop s sc0 0 []") auto
  from readTop_result [OF rt] p0 len M
  have ms1: "ms1 = successes s (take (nat (MaxLines s)) ls)"
    and p1: "pending sc1 = drop (Suc (nat (MaxLines s))) ls"
    and b1: "broken sc1 = False" and e1: "err sc1 = False"
    and lc1: "lc1 = MaxLines s"
    by (auto simp: ls_def)
  have empty: "int (length ([] :: string list)) \<le> MaxLines s"
    using M by simp
  obtain sc2 buf lc2 where fb: "fillBottom s sc1 [] lc1 = Inr (sc2, buf, lc2)"
    using fillBottom_total [OF M(1) empty] by blast
  from fillBottom_result [OF fb empty] obtain n where buf: "buf = drop n (pending sc1)"
    and lc2: "lc2 = lc1 + int (length (pending sc1))" and e2: "err sc2 = False"
    by (auto simp: b1)
  have lc2': "lc2 = int (length ls) - 1"
    using len by (simp add: lc2 lc1 p1 ls_def)
  have short: "length buf \<le> nat (lc2 - MaxLines s)"
    using len by (simp add: buf p1 lc2' ls_def)
  have rest: "parseBottom s buf (MaxLines s - (2 * MaxLines s - lc2)) ms1 = Inr ms1"
    if "MaxLines s < lc2"
  proof -
    have "0 \<le> MaxLines s - (2 * MaxLines s - lc2)"
      using that by simp
    moreover have "drop (nat (MaxLines s - (2 * MaxLines s - lc2))) buf = []"
      using short by simp
    ultimately show ?thesis
      by (simp add: parseBottom_result)
  qed
  have below: "lc2 < 2 * MaxLines s"
    using len by (simp add: lc2' ls_def)
  show ?thesis
    using both M rest below
    by (simp add: Scan_def sc0_def [symmetric] rt fb bufio_Err_def e1 e2 ms1 ls_def)
qed

lemma successes_all_fail:
  "\<forall>l\<in>set ls. \<exists>e. Scanner_ScanString s l = Inl e \<Longrightarrow> successes s ls = []"
  by (induction ls) (auto simp: successes_Cons)

text \<open>
  Claim C1 asks for two results from a source of \<open>2 * MaxLines\<close> lines with a modeline
  on its first and on its last line. The code returns the first one only, for every
  \<open>MaxLines\<close> from 1 on: the top loop takes line \<open>MaxLines + 1\<close> from the input before
  it tests the count, so \<open>lineCount\<close> ends at \<open>2 * MaxLines - 1\<close>; with \<open>MaxLines = 1\<close>
  the branch for a short file returns the top results, and otherwise the overlap branch
  starts at the end of the buffer.
\<close>

theorem Scan_2M_lines_returns_first_only:
  assumes "1 \<le> M" and "makeCapOk M"
    and "int (length (first # mid @ [final])) = 2 * M"
    and "Scanner_ScanString \<lparr>ScanTop = True, ScanBottom = True, MaxLines = M\<rparr> first = Inr m1"
    and "Scanner_ScanString \<lparr>ScanTop = True, ScanBottom = True, MaxLines = M\<rparr> final = Inr m2"
    and "\<forall>l\<in>set mid. \<exists>e. Scanner_ScanString \<lparr>ScanTop = True, ScanBottom = True, MaxLines = M\<rparr> l = Inl e"
  shows "Scan \<lparr>ScanTop = True, ScanBottom = True, MaxLines = M\<rparr>
      \<lparr>content = first # mid @ [final], failing = False\<rparr> = Inr [m1]"
proof -
  define s where "s = \<lparr>ScanTop = True, ScanBottom = True, MaxLines = M\<rparr>"
  define r where "r = \<lparr>content = first # mid @ [final], failing = False\<rparr>"
  have "Scan s r = Inr (successes s (take (nat (MaxLines s)) (content r)))"
    using assms(1-3) by (intro Scan_overlap) (simp_all add: s_def r_def)
  moreover have "take (nat M) (first # mid @ [final]) = first # take (nat M - 1) mid"
    using assms(1,3) by (cases "nat M") auto
  moreover have "successes s (take (nat M - 1) mid) = []"
    using assms(6) by (intro successes_all_fail) (auto simp: s_def dest: in_set_takeD)
  ultimately show ?thesis
    using assms(4) by (simp add: s_def r_def successes_Cons)
qed

theorem Scan_2M_lines_returns_first_only_witness:
  "Scan \<lparr>ScanTop = True, ScanBottom = True, MaxLines = 2\<rparr>
     \<lparr>content = [''# vim: sw=3'', ''line 2'', ''line 3'', ''# envctl: provider=gsm''],
      failing = False\<rparr> =
   Inr [\<lparr>Program = ''vim'', Options = [''sw'' \<mapsto> ''3''], RawLine = ''# vim: sw=3''\<rparr>]"
  using Scan_2M_lines_returns_first_only [of 2 "''# vim: sw=3''" "[''line 2'', ''line 3'']"
      "''# envctl: provider=gsm''", OF _ _ _ eval_vim_sw3 eval_envctl]
  by (simp add: makeCapOk_def eval_plain_lines)

text \<open>
  Claim C3, on the seven-line source whose only modeline is its last line, with five
  lines per edge: scanning the bottom alone returns that modeline and scanning the top
  alone returns nothing, as the claim says; scanning both edges, which also has
  \<open>ScanBottom\<close> set, returns nothing.
\<close>

theorem Scan_seven_lines:
  "Scan \<lparr>ScanTop = True, ScanBottom = True, MaxLines = 5\<rparr>
     \<lparr>content = [''line 1'', ''line 2'', ''line 3'', ''line 4'', ''line 5'', ''line 6'',
        ''# vim: sw=3''], failing = False\<rparr> = Inr [] \<and>
   Scan \<lparr>ScanTop = False, ScanBottom = True, MaxLines = 5\<rparr>
     \<lparr>content = [''line 1'', ''line 2'', ''line 3'', ''line 4'', ''line 5'', ''line 6'',
        ''# vim: sw=3''], failing = False\<rparr> =
     Inr [\<lparr>Program = ''vim'', Options = [''sw'' \<mapsto> ''3''], RawLine = ''# vim: sw=3''\<rparr>] \<and>
   Scan \<lparr>ScanTop = True, ScanBottom = False, MaxLines = 5\<rparr>
     \<lparr>content = [''line 1'', ''line 2'', ''line 3'', ''line 4'', ''line 5'', ''line 6'',
        ''# vim: sw=3''], failing = False\<rparr> = Inr []"
  by (simp add: Scan_def NewScanner_def makeCapOk_def readTop.simps fillBottom.simps
      parseBottom.simps bufio_Scan_def bufio_Text_def bufio_Err_def eval_plain_lines
      eval_vim_sw3)

section \<open>The result of a scan, case by case\<close>

lemma fillBottom_buffer:
  "fillBottom s sc buf lc = Inr (sc', buf', lc') \<Longrightarrow> int (length buf) \<le> MaxLines s \<Longrightarrow>
     buf' = drop (length buf + length (pending sc) - nat (MaxLines s)) (buf @ pending sc)"
proof (induction "pending sc" arbitrary: sc buf lc)
  case Nil
  from Nil(1) [symmetric] Nil(2) Nil(3) show ?case
    by (subst (asm) fillBottom.simps) (auto simp: bufio_Scan_def)
next
  case (Cons l ls)
  define sc2 where "sc2 = sc\<lparr>pending := ls, tok := l\<rparr>"
  have scan: "bufio_Scan sc = (True, sc2)"
    using Cons(2) [symmetric] by (simp add: bufio_Scan_def sc2_def)
  have p2: "ls = pending sc2"
    by (simp add: sc2_def)
  have t2: "tok sc2 = l"
    by (simp add: sc2_def)
  show ?case
  proof (cases "int (length buf) < MaxLines s")
    case True
    with Cons(3) have A: "fillBottom s sc2 (buf @ [l]) (lc + 1) = Inr (sc', buf', lc')"
      by (subst (asm) fillBottom.simps) (simp add: scan bufio_Text_def t2)
    from True have B: "int (length (buf @ [l])) \<le> MaxLines s"
      by simp
    have "buf' = drop (length (buf @ [l]) + length ls - nat (MaxLines s)) ((buf @ [l]) @ ls)"
      using Cons(1) [OF p2 A B] unfolding p2 [symmetric] .
    then show ?thesis
      unfolding Cons(2) [symmetric] by simp
  next
    case False
    with Cons(4) have full: "int (length buf) = MaxLines s"
      by simp
    from Cons(3) False have ne: "buf \<noteq> []"
      by (subst (asm) fillBottom.simps) (auto simp: scan Let_def split: if_splits)
    have idx: "nat (MaxLines s - 1) = length buf - 1"
      using full by simp
    from Cons(3) False ne
    have "fillBottom s sc2 ((tl buf @ [last buf])[nat (MaxLines s - 1) := l]) (lc + 1) =
        Inr (sc', buf', lc')"
      by (subst (asm) fillBottom.simps)
         (auto simp: scan Let_def bufio_Text_def t2 split: if_splits)
    then have A: "fillBottom s sc2 (drop 1 (buf @ [l])) (lc + 1) = Inr (sc', buf', lc')"
      unfolding idx shift_buffer [OF ne] .
    have B: "int (length (drop 1 (buf @ [l]))) \<le> MaxLines s"
      using full by simp
    have C: "buf' = drop (length (drop 1 (buf @ [l])) + length ls - nat (MaxLines s))
        (drop 1 (buf @ [l]) @ ls)"
      using Cons(1) [OF p2 A B] unfolding p2 [symmetric] .
    have n: "nat (MaxLines s) = length buf"
      using full by simp
    have k: "length (drop 1 (buf @ [l])) + length ls - nat (MaxLines s) = length ls"
      by (simp add: n)
    from ne have "drop 1 (buf @ [l]) @ ls = drop 1 (buf @ l # ls)"
      by (cases buf) simp_all
    with C have "buf' = drop (length ls) (drop 1 (buf @ l # ls))"
      by (simp only: k)
    then have "buf' = drop (length ls + 1) (buf @ l # ls)"
      by (simp only: drop_drop)
    moreover have "length buf + length (l # ls) - nat (MaxLines s) = length ls + 1"
      by (simp add: n)
    ultimately show ?thesis
      unfolding Cons(2) [symmetric] by (simp only:)
  qed
qed

text \<open>
  The result of a scan that neither fails nor panics, by configuration and by the
  number of lines: the top window is the first \<open>MaxLines\<close> lines, the bottom window the
  last \<open>MaxLines\<close> lines, and with both edges the bottom window is parsed only when the
  source has more than \<open>2 * MaxLines\<close> lines.
\<close>

lemma Scan_top_only:
  assumes "ScanTop s" "\<not> ScanBottom s" "\<not> failing r"
  shows "Scan s r = Inr (successes s (take (nat (MaxLines s)) (content r)))"
proof -
  define sc0 where "sc0 = NewScanner r"
  have p0: "pending sc0 = content r" "broken sc0 = False" "err sc0 = False"
    using assms(3) by (simp_all add: sc0_def NewScanner_def)
  obtain sc1 lc1 ms1 where rt: "readTop s sc0 0 [] = (sc1, lc1, ms1)"
    by (cases "readTop s sc0 0 []") auto
  from readTop_result [OF rt] p0
  have "ms1 = successes s (take (nat (MaxLines s)) (content r))" "err sc1 = False"
    by auto
  with assms show ?thesis
    by (simp add: Scan_def sc0_def [symmetric] rt bufio_Err_def)
qed

lemma Scan_bottom_only:
  assumes "\<not> ScanTop s" "ScanBottom s" "1 \<le> MaxLines s" "makeCapOk (MaxLines s)"
    and "\<not> failing r"
  shows "Scan s r =
    Inr (successes s (drop (length (content r) - nat (MaxLines s)) (content r)))"
proof -
  define sc0 where "sc0 = NewScanner r"
  have p0: "pending sc0 = content r" "broken sc0 = False" "err sc0 = False"
    using assms(5) by (simp_all add: sc0_def NewScanner_def)
  have empty: "int (length ([] :: string list)) \<le> MaxLines s"
    using assms(3) by simp
  obtain sc2 buf lc2 where fb: "fillBottom s sc0 [] 0 = Inr (sc2, buf, lc2)"
    using fillBottom_total [OF assms(3) empty] by blast
  from fillBottom_result [OF fb empty] have e2: "err sc2 = False"
    by (simp add: p0)
  from fillBottom_buffer [OF fb empty]
  have buf: "buf = drop (length (content r) - nat (MaxLines s)) (content r)"
    by (simp add: p0)
  show ?thesis
    using assms(1-4)
    by (simp add: Scan_def sc0_def [symmetric] fb bufio_Err_def e2 parseBottom_result buf)
qed

lemma Scan_disjoint:
  assumes both: "ScanTop s" "ScanBottom s"
    and M: "1 \<le> MaxLines s" "makeCapOk (MaxLines s)"
    and ok: "\<not> failing r"
    and len: "2 * MaxLines s < int (length (content r))"
  shows "Scan s r =
    Inr (successes s (take (nat (MaxLines s)) (content r)) @
         successes s (drop (length (content r) - nat (MaxLines s)) (content r)))"
proof -
  define ls where "ls = content r"
  define sc0 where "sc0 = NewScanner r"
  have p0: "pending sc0 = ls" "broken sc0 = False" "err sc0 = False"
    using ok by (simp_all add: sc0_def ls_def NewScanner_def)
  obtain sc1 lc1 ms1 where rt: "readTop s sc0 0 [] = (sc1, lc1, ms1)"
    by (cases "readTop s sc0 0 []") auto
  from readTop_result [OF rt] p0 len M
  have ms1: "ms1 = successes s (take (nat (MaxLines s)) ls)"
    and p1: "pending sc1 = drop (Suc (nat (MaxLines s))) ls"
    and b1: "broken sc1 = False" and e1: "err sc1 = False"
    and lc1: "lc1 = MaxLines s"
    by (auto simp: ls_def)
  have empty: "int (length ([] :: string list)) \<le> MaxLines s"
    using M by simp
  obtain sc2 buf lc2 where fb: "fillBottom s sc1 [] lc1 = Inr (sc2, buf, lc2)"
    using fillBottom_total [OF M(1) empty] by blast
  from fillBottom_result [OF fb empty]
  have lc2: "lc2 = lc1 + int (length (pending sc1))" and e2: "err sc2 = False"
    by (auto simp: b1)
  have lc2': "lc2 = int (length ls) - 1"
    using len M by (simp add: lc2 lc1 p1 ls_def)
  from fillBottom_buffer [OF fb empty]
  have "buf = drop (length ls - Suc (nat (MaxLines s)) - nat (MaxLines s))
      (drop (Suc (nat (MaxLines s))) ls)"
    by (simp add: p1)
  also have "\<dots> = drop (length ls - Suc (nat (MaxLines s)) - nat (MaxLines s) +
      Suc (nat (MaxLines s))) ls"
    by (simp only: drop_drop)
  also have "length ls - Suc (nat (MaxLines s)) - nat (MaxLines s) + Suc (nat (MaxLines s)) =
      length ls - nat (MaxLines s)"
    using len M unfolding ls_def by linarith
  finally have buf: "buf = drop (length ls - nat (MaxLines s)) ls" .
  have "\<not> lc2 \<le> MaxLines s" "\<not> lc2 < 2 * MaxLines s"
    using len M by (simp_all add: lc2' ls_def)
  then show ?thesis
    using both M
    by (simp add: Scan_def sc0_def [symmetric] rt fb bufio_Err_def e1 e2 ms1 buf
        parseBottom_result ls_def)
qed

section \<open>The scenarios of the repository's tests\<close>

text \<open>
  The model agrees with \<open>TestScanString\<close> and \<open>TestScan\<close> on the scenarios below; in
  those that scan both edges the source is either no longer than \<open>MaxLines\<close> or longer
  than \<open>2 * MaxLines\<close>.
\<close>

lemma test_first_form:
  "Scanner_ScanString s ''# vim:sw=3:foldmethod=marker'' =
     Inr \<lparr>Program = ''vim'', Options = [''sw'' \<mapsto> ''3'', ''foldmethod'' \<mapsto> ''marker''],
          RawLine = ''# vim:sw=3:foldmethod=marker''\<rparr>"
  "Scanner_ScanString s ''# vim:noai:cursorline'' =
     Inr \<lparr>Program = ''vim'', Options = [''ai'' \<mapsto> ''false'', ''cursorline'' \<mapsto> ''true''],
          RawLine = ''# vim:noai:cursorline''\<rparr>"
  "Scanner_ScanString s ''robot: beep=boop'' = Inl ErrNoModeline"
  "Scanner_ScanString s ''# not a modeline'' = Inl ErrNoModeline"
  by (simp_all add: Scanner_ScanString_def findProgram_def findProgramFrom.simps skipBlank.simps
      skipWord.simps isBlank_def isWordChar_def parseOptions_def TrimLeft_def TrimRight_def
      HasPrefix_def HasSuffix_def parseFirstForm_def FieldsFunc_def isSeparator_def
      parseOption_def Cut_def)

lemma test_second_form:
  "Scanner_ScanString s (''# vim:se noai cursorline: boolin'' @ [CHR 0x27]) =
     Inr \<lparr>Program = ''vim'', Options = [''ai'' \<mapsto> ''false'', ''cursorline'' \<mapsto> ''true''],
          RawLine = ''# vim:se noai cursorline: boolin'' @ [CHR 0x27]\<rparr>"
  by (simp add: Scanner_ScanString_def findProgram_def findProgramFrom.simps skipBlank.simps
      skipWord.simps isBlank_def isWordChar_def parseOptions_def TrimLeft_def
      HasPrefix_def parseSecondForm_def parseFirstForm_def FieldsFunc_def isSeparator_def
      parseOption_def Cut_def)

lemma test_scan_both:
  "Scan \<lparr>ScanTop = True, ScanBottom = True, MaxLines = 2\<rparr>
     \<lparr>content = [''# vim: sw=3'', ''line 2'', ''line 3'', ''line 4'', ''line 5'', ''line 6'',
        ''# envctl: provider=gsm''], failing = False\<rparr> =
   Inr [\<lparr>Program = ''vim'', Options = [''sw'' \<mapsto> ''3''], RawLine = ''# vim: sw=3''\<rparr>,
        \<lparr>Program = ''envctl'', Options = [''provider'' \<mapsto> ''gsm''],
         RawLine = ''# envctl: provider=gsm''\<rparr>]"
  by (simp add: Scan_def NewScanner_def makeCapOk_def readTop.simps fillBottom.simps
      parseBottom.simps bufio_Scan_def bufio_Text_def bufio_Err_def eval_plain_lines
      eval_vim_sw3 eval_envctl)

lemma test_file_shorter_than_MaxLines:
  "Scan \<lparr>ScanTop = True, ScanBottom = True, MaxLines = 10\<rparr>
     \<lparr>content = [''# vim: sw=3'', ''line 2''], failing = False\<rparr> =
   Inr [\<lparr>Program = ''vim'', Options = [''sw'' \<mapsto> ''3''], RawLine = ''# vim: sw=3''\<rparr>]"
  by (simp add: Scan_def NewScanner_def makeCapOk_def readTop.simps fillBottom.simps
      bufio_Scan_def bufio_Text_def bufio_Err_def eval_plain_lines eval_vim_sw3)

lemma test_scan_bottom_only:
  "Scan \<lparr>ScanTop = False, ScanBottom = True, MaxLines = 5\<rparr>
     \<lparr>content = [''line 1'', ''line 2'', ''# vim: sw=3'', ''line 4'', ''line 5'', ''line 6''],
      failing = False\<rparr> =
   Inr [\<lparr>Program = ''vim'', Options = [''sw'' \<mapsto> ''3''], RawLine = ''# vim: sw=3''\<rparr>]"
  "Scan \<lparr>ScanTop = False, ScanBottom = True, MaxLines = 5\<rparr>
     \<lparr>content = [''# vim: sw=3'', ''line 2'', ''line 3'', ''line 4'', ''line 5'', ''line 6''],
      failing = False\<rparr> = Inr []"
  by (simp_all add: Scan_def NewScanner_def makeCapOk_def fillBottom.simps
      parseBottom.simps bufio_Scan_def bufio_Text_def bufio_Err_def eval_plain_lines
      eval_vim_sw3)

lemma test_scan_top_only:
  "Scan \<lparr>ScanTop = True, ScanBottom = False, MaxLines = 5\<rparr>
     \<lparr>content = [''line 1'', ''line 2'', ''# vim: sw=3'', ''line 4'', ''line 5'', ''line 6''],
      failing = False\<rparr> =
   Inr [\<lparr>Program = ''vim'', Options = [''sw'' \<mapsto> ''3''], RawLine = ''# vim: sw=3''\<rparr>]"
  by (simp add: Scan_def NewScanner_def readTop.simps
      bufio_Scan_def bufio_Text_def bufio_Err_def eval_plain_lines eval_vim_sw3)

end
